theory Spec2Isabelle
  imports Main "HOL-Library.Word" "HOL-Library.Sublist" "HOL-Library.AList"
begin

text \<open>
  The repository holds two versions of one Node.js script: \<^verbatim>\<open>analyze.js\<close>, and a version
  that first gathers a project context from \<^verbatim>\<open>package.json\<close> and \<^verbatim>\<open>README.md\<close>. Both
  take a list of file paths, ask a generative service for mock data for each file that
  exists, and write one JSON object keyed by the paths. The script is embedded as
  functions on an explicit state (the accumulator, the trace of what was done to the
  outside, the number of requests sent), with the file system and the service as
  parameters; the parts of the JavaScript runtime it relies on (strings, global
  replace, \<^verbatim>\<open>trim\<close>, \<^verbatim>\<open>JSON.parse\<close>, property assignment and the order of keys) are
  modelled first.
\<close>

section \<open>Strings of the JavaScript runtime\<close>

text \<open>
  A JavaScript string is a sequence of UTF-16 code units. \<open>js\<close> turns an ASCII literal
  of the source into such a sequence; code units outside ASCII are written as numbers.
\<close>

type_synonym jschar = "16 word"
type_synonym jsstring = "jschar list"

definition js :: "string \<Rightarrow> jsstring" where
  "js s = map of_char s"

text \<open>
  \<^verbatim>\<open>s.replace(/lit/g, '')\<close> for a regular expression made of literal characters only:
  the matches are found from left to right, the search resumes behind each match, and
  every match is replaced by the empty string.
\<close>

function replace_all :: "'a list \<Rightarrow> 'a list \<Rightarrow> 'a list" where
  "replace_all pat [] = []"
| "replace_all pat (c # cs) =
     (if pat = [] then c # cs
      else if prefix pat (c # cs) then replace_all pat (drop (length pat) (c # cs))
      else c # replace_all pat cs)"
  by pat_completeness auto
termination
  by (relation "measure (\<lambda>(pat, s). length s)") auto

text \<open>
  \<^verbatim>\<open>String.prototype.trim\<close> removes the code units of WhiteSpace and LineTerminator
  of ECMAScript from both ends.
\<close>

definition is_js_space :: "jschar \<Rightarrow> bool" where
  "is_js_space c \<longleftrightarrow>
     c \<in> {0x0009, 0x000A, 0x000B, 0x000C, 0x000D, 0x0020, 0x00A0, 0x1680,
          0x2028, 0x2029, 0x202F, 0x205F, 0x3000, 0xFEFF}
     \<or> (0x2000 \<le> c \<and> c \<le> 0x200A)"

definition trim :: "jsstring \<Rightarrow> jsstring" where
  "trim s = rev (dropWhile is_js_space (rev (dropWhile is_js_space s)))"

text \<open>The two fence markers of the source, \<^verbatim>\<open>/```json/g\<close> and \<^verbatim>\<open>/```/g\<close>.\<close>

definition fence_json :: jsstring where
  \<open>fence_json = js ''```json''\<close>

definition fence :: jsstring where
  \<open>fence = js ''```''\<close>

text \<open>
  \<^verbatim>\<open>result.response.text().replace(/```json/g, '').replace(/```/g, '')\<close>, the completion
  before it is trimmed.
\<close>

definition strip_fences :: "jsstring \<Rightarrow> jsstring" where
  "strip_fences raw = replace_all fence (replace_all fence_json raw)"

section \<open>JSON values and objects of the runtime\<close>

text \<open>
  The values \<^verbatim>\<open>JSON.parse\<close> can return. A number keeps the text of its literal:
  IEEE doubles are not modelled, so two literals of one double are two values here.
  An object is the list of its own properties in the order in which the runtime
  enumerates them.
\<close>

datatype json =
    JNull
  | JBool bool
  | JNum jsstring
  | JStr jsstring
  | JArr "json list"
  | JObj "(jsstring \<times> json) list"

type_synonym properties = "(jsstring \<times> json) list"

text \<open>
  The own property keys of an object are enumerated with the array indices first
  (canonical decimal strings below \<open>2\<^sup>3\<^sup>2 - 1\<close>), in ascending numeric order, and the
  other strings after them in the order of their creation.
\<close>

definition is_digit :: "jschar \<Rightarrow> bool" where
  "is_digit c \<longleftrightarrow> 0x30 \<le> c \<and> c \<le> 0x39"

definition digits_value :: "jsstring \<Rightarrow> int" where
  "digits_value ds = foldl (\<lambda>n c. 10 * n + (uint c - 48)) 0 ds"

definition array_index :: "jsstring \<Rightarrow> int option" where
  "array_index k =
     (if k \<noteq> [] \<and> list_all is_digit k \<and> (hd k \<noteq> 0x30 \<or> length k = 1)
         \<and> digits_value k < 4294967295
      then Some (digits_value k) else None)"

fun insert_index :: "int \<Rightarrow> jsstring \<Rightarrow> json \<Rightarrow> properties \<Rightarrow> properties" where
  "insert_index n k v [] = [(k, v)]"
| "insert_index n k v (p # ps) =
     (case array_index (fst p) of
        Some m \<Rightarrow> if m < n then p # insert_index n k v ps else (k, v) # p # ps
      | None \<Rightarrow> (k, v) # p # ps)"

text \<open>
  Defining an own data property (\<^verbatim>\<open>CreateDataProperty\<close>): an existing key keeps its
  place and gets the new value, a new key is placed as the enumeration order demands.
\<close>

definition define_own :: "jsstring \<Rightarrow> json \<Rightarrow> properties \<Rightarrow> properties" where
  "define_own k v ps =
     (if k \<in> fst ` set ps then AList.update k v ps
      else case array_index k of
             Some n \<Rightarrow> insert_index n k v ps
           | None \<Rightarrow> ps @ [(k, v)])"

subsection \<open>\<^verbatim>\<open>JSON.parse\<close>\<close>

text \<open>
  The JSON grammar of ECMA-404, as \<^verbatim>\<open>JSON.parse\<close> reads it: four white space
  characters, strings with the nine escapes, numbers, the three literals, arrays and
  objects. Each parser returns what it read and the rest of the text.
\<close>

definition is_json_ws :: "jschar \<Rightarrow> bool" where
  "is_json_ws c \<longleftrightarrow> c = 0x20 \<or> c = 0x09 \<or> c = 0x0A \<or> c = 0x0D"

definition skip_ws :: "jsstring \<Rightarrow> jsstring" where
  "skip_ws s = dropWhile is_json_ws s"

definition hex_value :: "jschar \<Rightarrow> nat option" where
  "hex_value c =
     (if 0x30 \<le> c \<and> c \<le> 0x39 then Some (unat c - 0x30)
      else if 0x61 \<le> c \<and> c \<le> 0x66 then Some (unat c - 0x57)
      else if 0x41 \<le> c \<and> c \<le> 0x46 then Some (unat c - 0x37)
      else None)"

definition hex4 :: "jschar \<Rightarrow> jschar \<Rightarrow> jschar \<Rightarrow> jschar \<Rightarrow> jschar option" where
  "hex4 a b c d =
     (case (hex_value a, hex_value b, hex_value c, hex_value d) of
        (Some h3, Some h2, Some h1, Some h0) \<Rightarrow>
          Some (of_nat (((h3 * 16 + h2) * 16 + h1) * 16 + h0))
      | _ \<Rightarrow> None)"

definition escape :: "jschar \<Rightarrow> jschar option" where
  "escape e =
     (if e = 0x22 then Some 0x22
      else if e = 0x5C then Some 0x5C
      else if e = 0x2F then Some 0x2F
      else if e = 0x62 then Some 0x08
      else if e = 0x66 then Some 0x0C
      else if e = 0x6E then Some 0x0A
      else if e = 0x72 then Some 0x0D
      else if e = 0x74 then Some 0x09
      else None)"

fun parse_chars :: "jsstring \<Rightarrow> jsstring \<Rightarrow> (jsstring \<times> jsstring) option" where
  "parse_chars acc [] = None"
| "parse_chars acc (c # cs) =
     (if c = 0x22 then Some (rev acc, cs)
      else if c = 0x5C then
        (case cs of
           [] \<Rightarrow> None
         | e # es \<Rightarrow>
             if e = 0x75 then
               (case es of
                  h3 # h2 # h1 # h0 # rest \<Rightarrow>
                    (case hex4 h3 h2 h1 h0 of
                       Some u \<Rightarrow> parse_chars (u # acc) rest
                     | None \<Rightarrow> None)
                | _ \<Rightarrow> None)
             else
               (case escape e of
                  Some x \<Rightarrow> parse_chars (x # acc) es
                | None \<Rightarrow> None))
      else if c < 0x20 then None
      else parse_chars (c # acc) cs)"

definition parse_digits :: "jsstring \<Rightarrow> (jsstring \<times> jsstring) option" where
  "parse_digits s =
     (if takeWhile is_digit s = [] then None
      else Some (takeWhile is_digit s, dropWhile is_digit s))"

definition parse_int_part :: "jsstring \<Rightarrow> (jsstring \<times> jsstring) option" where
  "parse_int_part s =
     (case s of
        [] \<Rightarrow> None
      | c # cs \<Rightarrow>
          if c = 0x30 then Some ([c], cs)
          else if is_digit c then Some (c # takeWhile is_digit cs, dropWhile is_digit cs)
          else None)"

definition parse_frac :: "jsstring \<Rightarrow> (jsstring \<times> jsstring) option" where
  "parse_frac s =
     (case s of
        c # cs \<Rightarrow>
          if c = 0x2E then
            (case parse_digits cs of
               Some (ds, r) \<Rightarrow> Some (c # ds, r)
             | None \<Rightarrow> None)
          else Some ([], s)
      | [] \<Rightarrow> Some ([], s))"

definition parse_exp :: "jsstring \<Rightarrow> (jsstring \<times> jsstring) option" where
  "parse_exp s =
     (case s of
        c # cs \<Rightarrow>
          if c = 0x65 \<or> c = 0x45 then
            (case cs of
               g # gs \<Rightarrow>
                 if g = 0x2B \<or> g = 0x2D then
                   (case parse_digits gs of
                      Some (ds, r) \<Rightarrow> Some (c # g # ds, r)
                    | None \<Rightarrow> None)
                 else
                   (case parse_digits cs of
                      Some (ds, r) \<Rightarrow> Some (c # ds, r)
                    | None \<Rightarrow> None)
             | [] \<Rightarrow> None)
          else Some ([], s)
      | [] \<Rightarrow> Some ([], s))"

definition parse_number :: "jsstring \<Rightarrow> (jsstring \<times> jsstring) option" where
  "parse_number s =
     (let (sign, s1) = (case s of c # cs \<Rightarrow> if c = 0x2D then ([c], cs) else ([], s) | [] \<Rightarrow> ([], s))
      in case parse_int_part s1 of
           None \<Rightarrow> None
         | Some (i, s2) \<Rightarrow>
             (case parse_frac s2 of
                None \<Rightarrow> None
              | Some (f, s3) \<Rightarrow>
                  (case parse_exp s3 of
                     None \<Rightarrow> None
                   | Some (e, s4) \<Rightarrow> Some (sign @ i @ f @ e, s4))))"

text \<open>
  A value that is no array and no object, at the character \<open>c\<close> that follows the
  white space: a string, one of the three literals, or a number.
\<close>

definition parse_scalar :: "jsstring \<Rightarrow> (json \<times> jsstring) option" where
  "parse_scalar s =
     (case s of
        [] \<Rightarrow> None
      | c # cs \<Rightarrow>
          if c = 0x22 then
            (case parse_chars [] cs of
               Some (str, r) \<Rightarrow> Some (JStr str, r)
             | None \<Rightarrow> None)
          else if prefix (js ''true'') s then Some (JBool True, drop 4 s)
          else if prefix (js ''false'') s then Some (JBool False, drop 5 s)
          else if prefix (js ''null'') s then Some (JNull, drop 4 s)
          else
            (case parse_number s of
               Some (tok, r) \<Rightarrow> Some (JNum tok, r)
             | None \<Rightarrow> None))"

text \<open>
  The tests on lengths below never fail, since a value that was read has consumed a
  character: the equations hold without them (\<open>parse_elements_unguarded\<close>,
  \<open>parse_members_unguarded\<close>). They make the recursion visibly terminating. The members
  of an object are defined in the order of the text, so a repeated key keeps its first
  place and its last value.
\<close>

function parse_value :: "jsstring \<Rightarrow> (json \<times> jsstring) option"
  and parse_elements :: "json list \<Rightarrow> jsstring \<Rightarrow> (json list \<times> jsstring) option"
  and parse_members :: "properties \<Rightarrow> jsstring \<Rightarrow> (properties \<times> jsstring) option"
where
  "parse_value s =
     (case skip_ws s of
        [] \<Rightarrow> None
      | c # cs \<Rightarrow>
          if c = 0x7B then
            (case skip_ws cs of
               [] \<Rightarrow> None
             | d # ds \<Rightarrow>
                 if d = 0x7D then Some (JObj [], ds)
                 else map_option (\<lambda>(ps, r). (JObj ps, r)) (parse_members [] cs))
          else if c = 0x5B then
            (case skip_ws cs of
               [] \<Rightarrow> None
             | d # ds \<Rightarrow>
                 if d = 0x5D then Some (JArr [], ds)
                 else map_option (\<lambda>(vs, r). (JArr vs, r)) (parse_elements [] cs))
          else parse_scalar (c # cs))"
| "parse_elements acc s =
     (case parse_value s of
        None \<Rightarrow> None
      | Some (v, r) \<Rightarrow>
          if length r < length s then
            (case skip_ws r of
               [] \<Rightarrow> None
             | d # ds \<Rightarrow>
                 if d = 0x2C then parse_elements (acc @ [v]) ds
                 else if d = 0x5D then Some (acc @ [v], ds)
                 else None)
          else None)"
| "parse_members acc s =
     (case skip_ws s of
        [] \<Rightarrow> None
      | q # cs \<Rightarrow>
          if q = 0x22 then
            (case parse_chars [] cs of
               None \<Rightarrow> None
             | Some (k, r) \<Rightarrow>
                 (case skip_ws r of
                    [] \<Rightarrow> None
                  | colon # r1 \<Rightarrow>
                      if colon = 0x3A \<and> length r1 < length s then
                        (case parse_value r1 of
                           None \<Rightarrow> None
                         | Some (v, r2) \<Rightarrow>
                             if length r2 < length r1 then
                               (case skip_ws r2 of
                                  [] \<Rightarrow> None
                                | d # ds \<Rightarrow>
                                    if d = 0x2C then parse_members (define_own k v acc) ds
                                    else if d = 0x7D then Some (define_own k v acc, ds)
                                    else None)
                             else None)
                      else None))
          else None)"
  by pat_completeness auto
termination
proof -
  have shorter: "length cs < length s" if "skip_ws s = c # cs" for s cs and c :: jschar
    using that length_dropWhile_le [of is_json_ws s] by (simp add: skip_ws_def)
  show ?thesis
    by (relation "measure (\<lambda>x. case x of
            Inl s \<Rightarrow> 2 * length s
          | Inr (Inl (acc, s)) \<Rightarrow> 2 * length s + 1
          | Inr (Inr (acc, s)) \<Rightarrow> 2 * length s + 1)")
       (auto dest!: shorter)
qed

text \<open>\<^verbatim>\<open>JSON.parse(text)\<close>: one value, white space around it, nothing else. \<open>None\<close> is the SyntaxError.\<close>

definition JSON_parse :: "jsstring \<Rightarrow> json option" where
  "JSON_parse text =
     (case parse_value text of
        Some (v, r) \<Rightarrow> if skip_ws r = [] then Some v else None
      | None \<Rightarrow> None)"


section \<open>The accumulator \<^verbatim>\<open>masterAnalysis\<close>\<close>

text \<open>
  \<^verbatim>\<open>masterAnalysis\<close> starts as \<^verbatim>\<open>{}\<close>: no own property, prototype
  \<^verbatim>\<open>Object.prototype\<close>. The assignment \<^verbatim>\<open>masterAnalysis[filePath] = v\<close> is the
  \<^verbatim>\<open>[[Set]]\<close> of an ordinary object: an own property is overwritten in place; the key
  \<^verbatim>\<open>__proto__\<close>, while it is inherited as the accessor of \<^verbatim>\<open>Object.prototype\<close>, replaces
  the prototype (by an object or by \<^verbatim>\<open>null\<close>) and creates no property; every other key
  becomes a new own property. A prototype that was parsed from JSON passes the accessor
  on unless it has an own property \<^verbatim>\<open>__proto__\<close>.
\<close>

datatype prototype =
    ObjectPrototype
  | NullPrototype
  | ParsedObject properties
  | ParsedArray "json list"

record jsobject =
  own :: properties
  proto :: prototype

definition empty_object :: jsobject where
  "empty_object = \<lparr>own = [], proto = ObjectPrototype\<rparr>"

definition proto_key :: jsstring where
  "proto_key = js ''__proto__''"

fun inherits_proto_accessor :: "prototype \<Rightarrow> bool" where
  "inherits_proto_accessor ObjectPrototype = True"
| "inherits_proto_accessor NullPrototype = False"
| "inherits_proto_accessor (ParsedObject ps) = (proto_key \<notin> fst ` set ps)"
| "inherits_proto_accessor (ParsedArray vs) = True"

fun set_prototype :: "json \<Rightarrow> jsobject \<Rightarrow> jsobject" where
  "set_prototype JNull obj = obj\<lparr>proto := NullPrototype\<rparr>"
| "set_prototype (JObj ps) obj = obj\<lparr>proto := ParsedObject ps\<rparr>"
| "set_prototype (JArr vs) obj = obj\<lparr>proto := ParsedArray vs\<rparr>"
| "set_prototype v obj = obj"

definition assign :: "jsstring \<Rightarrow> json \<Rightarrow> jsobject \<Rightarrow> jsobject" where
  "assign k v obj =
     (if k \<in> fst ` set (own obj) then obj\<lparr>own := AList.update k v (own obj)\<rparr>
      else if k = proto_key \<and> inherits_proto_accessor (proto obj) then set_prototype v obj
      else obj\<lparr>own := define_own k v (own obj)\<rparr>)"

text \<open>The fallback of the source, \<^verbatim>\<open>{ props: {}, wrappers: {} }\<close>.\<close>

definition fallback :: json where
  "fallback = JObj [(js ''props'', JObj []), (js ''wrappers'', JObj [])]"

section \<open>The world outside the program\<close>

text \<open>
  What the program reads from outside is a parameter. The file system does not change
  during a run. The service is a black box: its answer to the \<open>n\<close>-th request may
  depend on \<open>n\<close> as well as on the prompt, and is the text of the completion or the
  error thrown by \<^verbatim>\<open>generateContent\<close> or by \<^verbatim>\<open>response.text()\<close>. Writing to the console
  and sleeping do not fail. The runtime also decides the message of a SyntaxError of
  \<^verbatim>\<open>JSON.parse\<close>, how a number is printed and which number literals denote zero.
\<close>

datatype error = Error (message: jsstring)

record env =
  existsSync :: "jsstring \<Rightarrow> bool"
  readFileSync :: "jsstring \<Rightarrow> error + jsstring"
  generateContent :: "nat \<Rightarrow> jsstring \<Rightarrow> error + jsstring"
  writeFileSync :: "jsstring \<Rightarrow> error option"
  syntax_error :: "jsstring \<Rightarrow> error"
  number_to_string :: "jsstring \<Rightarrow> jsstring"
  number_is_zero :: "jsstring \<Rightarrow> bool"

text \<open>
  What the program does to the outside, in the order in which it does it. \<open>Request\<close> is
  a call of \<^verbatim>\<open>model.generateContent\<close> with its prompt, \<open>Sleep\<close> a call of \<^verbatim>\<open>sleep\<close>
  with its milliseconds, \<open>WriteJson p obj\<close> the call
  \<^verbatim>\<open>fs.writeFileSync(p, JSON.stringify(obj, null, 2))\<close>, which prints the own properties
  of \<open>obj\<close> in their order.
\<close>

datatype event =
    ConsoleLog jsstring
  | ConsoleWarn jsstring
  | ConsoleError jsstring
  | StdoutWrite jsstring
  | Request jsstring
  | Sleep nat
  | WriteJson jsstring properties

record state =
  masterAnalysis :: jsobject
  trace :: "event list"
  requests :: nat

definition emit :: "event \<Rightarrow> state \<Rightarrow> state" where
  "emit e st = st\<lparr>trace := trace st @ [e]\<rparr>"

section \<open>The loop of \<^verbatim>\<open>analyzeAll\<close>\<close>

text \<open>
  The two files of the repository run the same loop. They differ in the banner, in the
  line logged for a skipped file (one of them logs none) and in the prompt.
\<close>

record variant =
  banner :: jsstring
  skip_line :: "jsstring \<Rightarrow> jsstring option"
  compose :: "jsstring \<Rightarrow> jsstring \<Rightarrow> jsstring"

definition OUTPUT_PATH :: jsstring where
  "OUTPUT_PATH = js ''./analysis.json''"

text \<open>
  The body of \<^verbatim>\<open>try\<close> for one file, with \<open>n = FILES.length\<close>: the state it reaches, and
  the error that left it, if one did.
\<close>

definition try_body :: "env \<Rightarrow> variant \<Rightarrow> nat \<Rightarrow> jsstring \<Rightarrow> state \<Rightarrow> state \<times> error option" where
  "try_body E V n filePath st =
     (let st1 = emit (ConsoleLog ([0x20, 0x20, 0x20, 0xD83D, 0xDC49] @ js '' Analyzing: '' @ filePath)) st
      in case readFileSync E filePath of
           Inl err \<Rightarrow> (st1, Some err)
         | Inr code \<Rightarrow>
             (let prompt = compose V filePath code;
                  st2 = (emit (Request prompt) st1)\<lparr>requests := requests st1 + 1\<rparr>
              in case generateContent E (requests st1) prompt of
                   Inl err \<Rightarrow> (st2, Some err)
                 | Inr raw \<Rightarrow>
                     (let text = trim (strip_fences raw)
                      in case JSON_parse text of
                           None \<Rightarrow> (st2, Some (syntax_error E text))
                         | Some v \<Rightarrow>
                             (let st3 = st2\<lparr>masterAnalysis := assign filePath v (masterAnalysis st2)\<rparr>
                              in if n > 1
                                 then (emit (Sleep 4000)
                                         (emit (StdoutWrite (js ''      (Waiting 4s to avoid rate limit...)'' @ [0x0A])) st3),
                                       None)
                                 else (st3, None)))))"

text \<open>One iteration: the test of \<^verbatim>\<open>existsSync\<close>, the \<^verbatim>\<open>try\<close>, the \<^verbatim>\<open>catch\<close>.\<close>

definition analyze_file :: "env \<Rightarrow> variant \<Rightarrow> nat \<Rightarrow> jsstring \<Rightarrow> state \<Rightarrow> state" where
  "analyze_file E V n filePath st =
     (if \<not> existsSync E filePath then
        (case skip_line V filePath of
           None \<Rightarrow> st
         | Some line \<Rightarrow> emit (ConsoleLog line) st)
      else case try_body E V n filePath st of
             (st', None) \<Rightarrow> st'
           | (st', Some err) \<Rightarrow>
               (emit (ConsoleError ([0x20, 0x20, 0x20, 0x274C] @ js '' Failed to analyze '' @ filePath
                                     @ js '': '' @ message err)) st')
                 \<lparr>masterAnalysis := assign filePath fallback (masterAnalysis st')\<rparr>)"

primrec analyze_loop :: "env \<Rightarrow> variant \<Rightarrow> nat \<Rightarrow> jsstring list \<Rightarrow> state \<Rightarrow> state" where
  "analyze_loop E V n [] st = st"
| "analyze_loop E V n (filePath # rest) st = analyze_loop E V n rest (analyze_file E V n filePath st)"

function decimal :: "nat \<Rightarrow> jsstring" where
  "decimal n = (if n < 10 then [0x30 + of_nat n] else decimal (n div 10) @ [0x30 + of_nat (n mod 10)])"
  by pat_completeness auto
termination
  by (relation "measure id") auto

text \<open>
  How a run ends: \<open>Completed\<close> when the artifact was written, \<open>Rejected\<close> when
  \<^verbatim>\<open>writeFileSync\<close> threw, \<open>Exited\<close> for \<^verbatim>\<open>process.exit\<close> with its code and what had
  been printed. \<open>analyzeAll\<close> takes what was printed before it is called; \<open>started\<close> is
  the state in which its loop begins and \<open>analyzed\<close> the state in which the loop ends.
\<close>

datatype run =
    Exited nat "event list"
  | Completed state
  | Rejected error state

definition started :: "variant \<Rightarrow> jsstring list \<Rightarrow> event list \<Rightarrow> state" where
  "started V FILES printed =
     \<lparr>masterAnalysis = empty_object,
      trace = printed @ [ConsoleLog ([0xD83E, 0xDDE0] @ js '' Starting '' @ banner V
                          @ js '' Analysis for '' @ decimal (length FILES) @ js '' files...'')],
      requests = 0\<rparr>"

definition analyzed :: "env \<Rightarrow> variant \<Rightarrow> jsstring list \<Rightarrow> event list \<Rightarrow> state" where
  "analyzed E V FILES printed = analyze_loop E V (length FILES) FILES (started V FILES printed)"

definition analyzeAll :: "env \<Rightarrow> variant \<Rightarrow> jsstring list \<Rightarrow> event list \<Rightarrow> run" where
  "analyzeAll E V FILES printed =
     (let st1 = analyzed E V FILES printed;
          st2 = emit (WriteJson OUTPUT_PATH (own (masterAnalysis st1))) st1
      in case writeFileSync E OUTPUT_PATH of
           Some err \<Rightarrow> Rejected err st2
         | None \<Rightarrow>
             Completed (emit (ConsoleLog ([0x2705] @ js '' Bulk Analysis complete! Saved to '' @ OUTPUT_PATH)) st2))"

definition no_files_message :: jsstring where
  "no_files_message = [0x274C] @ js '' No files provided to analyze.''"

section \<open>The prompts and the project context\<close>

definition nl :: jsstring where
  "nl = [0x0A]"

text \<open>The prompt of \<^verbatim>\<open>analyze.js\<close>.\<close>

definition bulk_prompt :: "jsstring \<Rightarrow> jsstring" where
  \<open>bulk_prompt code =
      nl @ js ''        You are an expert React System. Analyze this code.'' @
      nl @ js ''        Output JSON with:'' @
      nl @ js ''        1. "props": Realistic mock data.'' @
      nl @ js ''        2. "wrappers": Boolean list (router, redux, query).'' @
      nl @ js ''        '' @
      nl @ js ''        Output ONLY valid JSON.'' @
      nl @ js ''        Code: '' @ code @
      nl @ js ''      ''\<close>

text \<open>
  \<^verbatim>\<open>path.basename\<close> of POSIX: the slashes at the end are dropped, then what follows the
  last slash is kept.
\<close>

definition basename :: "jsstring \<Rightarrow> jsstring" where
  "basename p =
     rev (takeWhile (\<lambda>c. c \<noteq> 0x2F) (dropWhile (\<lambda>c. c = 0x2F) (rev p)))"

definition boolean_text :: "bool \<Rightarrow> jsstring" where
  "boolean_text b = (if b then js ''true'' else js ''false'')"

text \<open>The prompt of the context-aware file, with the project context \<open>ctx\<close>.\<close>

definition context_prompt :: "jsstring \<Rightarrow> jsstring \<Rightarrow> jsstring \<Rightarrow> jsstring" where
  \<open>context_prompt ctx filePath code =
      nl @ js ''        You are a Data Mocking Expert. '' @
      nl @ js ''        '' @
      nl @ js ''        PROJECT CONTEXT:'' @
      nl @ js ''        '' @ ctx @
      nl @
      nl @ js ''        TARGET COMPONENT:'' @
      nl @ js ''        Filename: "'' @ basename filePath @ js ''"'' @
      nl @ js ''        Is TypeScript: '' @ boolean_text (suffix (js ''.tsx'') filePath) @
      nl @
      nl @ js ''        TASK:'' @
      nl @ js ''        Analyze the component code and generate realistic JSON props.'' @
      nl @
      nl @ js ''        STRICT GUIDELINES:'' @
      nl @ js ''        1. **Context is King:** Use the Project Context/README to infer the data domain. (e.g. if README says "Bookstore", generate Book titles, not "Product A").'' @
      nl @ js ''        2. **Working Images (Idea 2):** NEVER generate fake URLs like '' @ [0x27] @ js ''http://example.com/img.jpg'' @ [0x27] @ js ''. '' @
      nl @ js ''           - For Users/Avatars use: "https://ui-avatars.com/api/?name=John+Doe&background=random"'' @
      nl @ js ''           - For Products/Items use: "https://placehold.co/600x400?text=Product+Name"'' @
      nl @ js ''        3. **TypeScript Compliance (Idea 3):** If the file is .tsx, look for '' @ [0x27] @ js ''interface'' @ [0x27] @ js '' or '' @ [0x27] @ js ''type'' @ [0x27] @ js '' definitions. You MUST generate data that strictly matches those types (enums, optional fields, arrays).'' @
      nl @ js ''        4. **Wrappers:** Detect if the code needs '' @ [0x27] @ js ''router'' @ [0x27] @ js '', '' @ [0x27] @ js ''redux'' @ [0x27] @ js '', or '' @ [0x27] @ js ''query'' @ [0x27] @ js ''.'' @
      nl @
      nl @ js ''        Output JSON format:'' @
      nl @ js ''        {'' @
      nl @ js ''          "props": { ... },'' @
      nl @ js ''          "wrappers": { "router": boolean, "redux": boolean, "query": boolean }'' @
      nl @ js ''        }'' @
      nl @
      nl @ js ''        COMPONENT CODE:'' @
      nl @ js ''        '' @ code @
      nl @ js ''      ''\<close>

subsection \<open>Values of \<^verbatim>\<open>package.json\<close> in a template\<close>

text \<open>
  \<^verbatim>\<open>x || d\<close> tests whether \<open>x\<close> is truthy; which number literals denote zero is the
  runtime's to say.
\<close>

fun truthy :: "env \<Rightarrow> json \<Rightarrow> bool" where
  "truthy E JNull = False"
| "truthy E (JBool b) = b"
| "truthy E (JNum t) = (\<not> number_is_zero E t)"
| "truthy E (JStr s) = (s \<noteq> [])"
| "truthy E (JArr vs) = True"
| "truthy E (JObj ps) = True"

definition or_default :: "env \<Rightarrow> json option \<Rightarrow> json \<Rightarrow> json" where
  "or_default E x d = (case x of None \<Rightarrow> d | Some v \<Rightarrow> if truthy E v then v else d)"

text \<open>
  \<^verbatim>\<open>pkg.name\<close>, \<^verbatim>\<open>pkg.description\<close> and \<^verbatim>\<open>pkg.dependencies\<close> on a parsed value other than
  \<^verbatim>\<open>null\<close>: only an object can have them, as own properties; \<open>None\<close> is \<^verbatim>\<open>undefined\<close>.
\<close>

fun property :: "json \<Rightarrow> jsstring \<Rightarrow> json option" where
  "property (JObj ps) k = map_of ps k"
| "property v k = None"

fun join :: "jsstring \<Rightarrow> jsstring list \<Rightarrow> jsstring" where
  "join sep [] = []"
| "join sep [x] = x"
| "join sep (x # y # zs) = x @ sep @ join sep (y # zs)"

text \<open>
  \<^verbatim>\<open>ToString\<close> of a parsed value, as a template applies it. An array joins its
  elements with commas, \<^verbatim>\<open>null\<close> elements as empty strings. An object is
  \<^verbatim>\<open>[object Object]\<close>, unless it has an own property \<^verbatim>\<open>toString\<close>, which is never a
  function: then the conversion throws a TypeError, the \<open>None\<close> here.
\<close>

fun to_string :: "env \<Rightarrow> json \<Rightarrow> jsstring option" where
  "to_string E JNull = Some (js ''null'')"
| "to_string E (JBool b) = Some (boolean_text b)"
| "to_string E (JNum t) = Some (number_to_string E t)"
| "to_string E (JStr s) = Some s"
| "to_string E (JArr vs) =
     (let parts = map (\<lambda>v. if v = JNull then Some [] else to_string E v) vs
      in if None \<in> set parts then None else Some (join (js '','') (map the parts)))"
| "to_string E (JObj ps) =
     (if js ''toString'' \<in> fst ` set ps then None else Some (js ''[object Object]''))"

text \<open>\<^verbatim>\<open>Object.keys\<close> of a parsed value other than \<^verbatim>\<open>null\<close>.\<close>

fun object_keys :: "json \<Rightarrow> jsstring list" where
  "object_keys (JObj ps) = map fst ps"
| "object_keys (JArr vs) = map decimal [0..<length vs]"
| "object_keys (JStr s) = map decimal [0..<length s]"
| "object_keys v = []"

text \<open>
  Step A of the source, from the parsed \<^verbatim>\<open>package.json\<close> to the new value of
  \<^verbatim>\<open>projectContext\<close>; \<open>None\<close> when reading a property of \<^verbatim>\<open>null\<close> or a conversion to
  string throws.
\<close>

definition manifest_context :: "env \<Rightarrow> json \<Rightarrow> jsstring option" where
  \<open>manifest_context E pkg =
     (if pkg = JNull then None
      else case to_string E (or_default E (property pkg (js ''name'')) (JStr (js ''Unnamed''))) of
             None \<Rightarrow> None
           | Some name \<Rightarrow>
               (case to_string E (or_default E (property pkg (js ''description'')) (JStr [])) of
                  None \<Rightarrow> None
                | Some description \<Rightarrow>
                    Some (js ''Project Name: "'' @ name @ js ''"'' @ nl @ js ''Description: "'' @ description @ js ''"''
                          @ nl @ js ''Key Libraries: ''
                          @ join (js '', '') (object_keys (or_default E (property pkg (js ''dependencies'')) (JObj []))))))\<close>

definition placeholder :: jsstring where
  "placeholder = js ''Unknown React Application''"

definition type_error :: error where
  "type_error = Error (js ''TypeError'')"

text \<open>
  Step A of the \<^verbatim>\<open>try\<close> block that gathers the context: the value it assigns to
  \<^verbatim>\<open>projectContext\<close> (the placeholder stays when there is no \<^verbatim>\<open>package.json\<close>), or the
  error it throws.
\<close>

definition manifest_step :: "env \<Rightarrow> error + jsstring" where
  "manifest_step E =
     (if existsSync E (js ''package.json'') then
        (case readFileSync E (js ''package.json'') of
           Inl err \<Rightarrow> Inl err
         | Inr txt \<Rightarrow>
             (case JSON_parse txt of
                None \<Rightarrow> Inl (syntax_error E txt)
              | Some pkg \<Rightarrow>
                  (case manifest_context E pkg of
                     None \<Rightarrow> Inl type_error
                   | Some ctx \<Rightarrow> Inr ctx)))
      else Inr placeholder)"

text \<open>
  The whole block, step A and step B: the value of \<^verbatim>\<open>projectContext\<close> when the block is
  left, and the error that left it, if one did.
\<close>

definition context_try :: "env \<Rightarrow> jsstring \<times> error option" where
  "context_try E =
     (case manifest_step E of
        Inl err \<Rightarrow> (placeholder, Some err)
      | Inr ctx \<Rightarrow>
          if existsSync E (js ''README.md'') then
            (case readFileSync E (js ''README.md'') of
               Inl err \<Rightarrow> (ctx, Some err)
             | Inr readme \<Rightarrow>
                 (ctx @ nl @ nl @ js ''README Summary:'' @ nl @ take 3000 readme @ js ''...'', None))
          else (ctx, None))"

definition context_warning :: jsstring where
  "context_warning = [0x26A0, 0xFE0F] @ js '' Could not read project context files.''"

text \<open>The block with its \<^verbatim>\<open>catch\<close>: the context, and what was printed.\<close>

definition projectContext :: "env \<Rightarrow> jsstring \<times> event list" where
  "projectContext E =
     (case context_try E of
        (ctx, None) \<Rightarrow> (ctx, [])
      | (ctx, Some err) \<Rightarrow>
          (ctx, [ConsoleWarn context_warning]))"

section \<open>The two programs\<close>

definition bulk :: variant where
  "bulk = \<lparr>banner = js ''Bulk'',
           skip_line = (\<lambda>filePath. Some ([0x20, 0x20, 0x20, 0x26A0, 0xFE0F]
                                        @ js '' Skipping deleted file: '' @ filePath)),
           compose = (\<lambda>filePath code. bulk_prompt code)\<rparr>"

definition context_aware :: "jsstring \<Rightarrow> variant" where
  "context_aware ctx = \<lparr>banner = js ''Context-Aware'',
                        skip_line = (\<lambda>filePath. None),
                        compose = context_prompt ctx\<rparr>"

text \<open>\<^verbatim>\<open>analyze.js\<close> from its first line, with \<open>FILES = process.argv.slice(2)\<close>.\<close>

definition main_bulk :: "env \<Rightarrow> jsstring list \<Rightarrow> run" where
  "main_bulk E FILES =
     (if length FILES = 0 then Exited 1 [ConsoleError no_files_message]
      else analyzeAll E bulk FILES [])"

text \<open>The context-aware file from its first line.\<close>

definition main_context :: "env \<Rightarrow> jsstring list \<Rightarrow> run" where
  "main_context E FILES =
     (if length FILES = 0 then Exited 1 [ConsoleError no_files_message]
      else case projectContext E of
             (ctx, printed) \<Rightarrow> analyzeAll E (context_aware ctx) FILES printed)"

section \<open>The vocabulary of the specification\<close>

text \<open>
  \<open>BatchOutput\<close> is the accumulator when the loop has ended, which is what the run
  writes: its own properties, in their order.
\<close>

definition BatchOutput :: "env \<Rightarrow> variant \<Rightarrow> jsstring list \<Rightarrow> properties" where
  "BatchOutput E V FILES = own (masterAnalysis (analyzed E V FILES []))"

text \<open>The number of calls of the throttle in a trace.\<close>

fun is_sleep :: "event \<Rightarrow> bool" where
  "is_sleep (Sleep ms) = True"
| "is_sleep e = False"

definition sleeps :: "event list \<Rightarrow> nat" where
  "sleeps tr = length (filter is_sleep tr)"

text \<open>
  The states of one target in the specification, read off the outside world: skipped
  because missing; failed because the file could not be read, the request was rejected
  or the completion was malformed; succeeded with a parsed value. \<open>r\<close> is the number
  of requests sent before this target, \<open>sent\<close> the number it adds.
\<close>

datatype outcome =
    SkippedMissing
  | Unreadable error
  | Rejection error
  | Malformed jsstring
  | Succeeded json

definition outcome_of :: "env \<Rightarrow> variant \<Rightarrow> nat \<Rightarrow> jsstring \<Rightarrow> outcome" where
  "outcome_of E V r f =
     (if \<not> existsSync E f then SkippedMissing
      else case readFileSync E f of
             Inl err \<Rightarrow> Unreadable err
           | Inr code \<Rightarrow>
               (case generateContent E r (compose V f code) of
                  Inl err \<Rightarrow> Rejection err
                | Inr raw \<Rightarrow>
                    (case JSON_parse (trim (strip_fences raw)) of
                       None \<Rightarrow> Malformed (trim (strip_fences raw))
                     | Some v \<Rightarrow> Succeeded v)))"

fun sent :: "outcome \<Rightarrow> nat" where
  "sent SkippedMissing = 0"
| "sent (Unreadable err) = 0"
| "sent out = 1"

fun is_failure :: "outcome \<Rightarrow> bool" where
  "is_failure SkippedMissing = False"
| "is_failure (Succeeded v) = False"
| "is_failure out = True"

fun is_success :: "outcome \<Rightarrow> bool" where
  "is_success (Succeeded v) = True"
| "is_success out = False"

text \<open>
  What a target adds to \<open>BatchOutput\<close> in the specification: nothing when skipped, the
  fallback when failed, the parsed value when succeeded.
\<close>

fun entry_of :: "outcome \<Rightarrow> json option" where
  "entry_of SkippedMissing = None"
| "entry_of (Succeeded v) = Some v"
| "entry_of out = Some fallback"

text \<open>The outcomes of the targets of a list, the first of them met after \<open>r\<close> requests.\<close>

fun outcomes :: "env \<Rightarrow> variant \<Rightarrow> nat \<Rightarrow> jsstring list \<Rightarrow> outcome list" where
  "outcomes E V r [] = []"
| "outcomes E V r (f # fs) = outcome_of E V r f # outcomes E V (r + sent (outcome_of E V r f)) fs"

text \<open>
  An identifier that the accumulator treats like any string: no array index, and not
  \<^verbatim>\<open>__proto__\<close>.
\<close>

definition plain_key :: "jsstring \<Rightarrow> bool" where
  "plain_key k \<longleftrightarrow> array_index k = None \<and> k \<noteq> proto_key"

section \<open>Texts with fence markers, and the text of a value\<close>



text \<open>
  A JSON text that denotes a given value, printed without white space: a string between
  quotes, with the quote, the backslash and the control characters escaped; a number as
  its literal; the elements of an array and the members of an object separated by
  commas. \<open>number_literal\<close> says that a text is one number of the JSON grammar.
\<close>

definition hex_digit :: "nat \<Rightarrow> jschar" where
  "hex_digit d = (if d < 10 then of_nat (48 + d) else of_nat (87 + d))"

definition escaped :: "jschar \<Rightarrow> jsstring" where
  "escaped c =
     (if c = 0x22 then [0x5C, 0x22]
      else if c = 0x5C then [0x5C, 0x5C]
      else if c < 0x20 then [0x5C, 0x75, 0x30, 0x30, hex_digit (unat c div 16), hex_digit (unat c mod 16)]
      else [c])"

definition quoted :: "jsstring \<Rightarrow> jsstring" where
  "quoted s = 0x22 # concat (map escaped s) @ [0x22]"

definition number_literal :: "jsstring \<Rightarrow> bool" where
  "number_literal t \<longleftrightarrow> parse_number t = Some (t, [])"

fun render :: "json \<Rightarrow> jsstring" where
  "render JNull = js ''null''"
| "render (JBool b) = boolean_text b"
| "render (JNum t) = t"
| "render (JStr s) = quoted s"
| "render (JArr vs) = 0x5B # join [0x2C] (map render vs) @ [0x5D]"
| "render (JObj ps) = 0x7B # join [0x2C] (map (\<lambda>p. quoted (fst p) @ 0x3A # render (snd p)) ps) @ [0x7D]"

text \<open>
  A value is well formed when every number in it is a literal of the grammar and the
  members of every object stand in the order in which \<open>define_own\<close> puts them, each key
  once.
\<close>

fun well_formed :: "json \<Rightarrow> bool" where
  "well_formed (JNum t) = number_literal t"
| "well_formed (JArr vs) = (\<forall>v\<in>set vs. well_formed v)"
| "well_formed (JObj ps) =
     ((\<forall>p\<in>set ps. well_formed (snd p))
      \<and> foldl (\<lambda>acc p. define_own (fst p) (snd p) acc) [] ps = ps)"
| "well_formed v = True"

text \<open>
  What can follow a value inside a text, and the characters with which the text of a
  value begins and ends.
\<close>

definition ends_value :: "jsstring \<Rightarrow> bool" where
  "ends_value r \<longleftrightarrow> r = [] \<or> hd r = 0x2C \<or> hd r = 0x5D \<or> hd r = 0x7D"

definition starts_value :: "jschar \<Rightarrow> bool" where
  "starts_value c \<longleftrightarrow>
     c = 0x22 \<or> c = 0x5B \<or> c = 0x7B \<or> c = 0x2D \<or> is_digit c \<or> c = 0x74 \<or> c = 0x66 \<or> c = 0x6E"

definition finishes_value :: "jschar \<Rightarrow> bool" where
  "finishes_value c \<longleftrightarrow>
     c = 0x22 \<or> c = 0x5D \<or> c = 0x7D \<or> is_digit c \<or> c = 0x65 \<or> c = 0x6C"

section \<open>Example worlds\<close>

text \<open>
  A world for concrete runs: the files with their contents, the answers of the service
  in the order of the requests (a request beyond them fails), a disk that can be
  written.
\<close>

definition world :: "(jsstring \<times> jsstring) list \<Rightarrow> (error + jsstring) list \<Rightarrow> env" where
  "world files answers =
     \<lparr>existsSync = (\<lambda>p. map_of files p \<noteq> None),
      readFileSync = (\<lambda>p. case map_of files p of
                             Some content \<Rightarrow> Inr content
                           | None \<Rightarrow> Inl (Error (js ''ENOENT''))),
      generateContent = (\<lambda>n prompt. if n < length answers then answers ! n
                                      else Inl (Error (js ''fetch failed''))),
      writeFileSync = (\<lambda>p. None),
      syntax_error = (\<lambda>t. Error (js ''Unexpected token'')),
      number_to_string = (\<lambda>t. t),
      number_is_zero = (\<lambda>t. False)\<rparr>"

definition component :: jsstring where
  "component = js ''export default function C(props) { return null }''"

text \<open>Three completions: fenced with the tag \<^verbatim>\<open>json\<close>, bare, and fenced with the tag \<^verbatim>\<open>js\<close>.\<close>

definition fenced_completion :: jsstring where
  \<open>fenced_completion =
     js ''```json'' @ nl @ js ''{"props":{"title":"X"},"wrappers":{"router":true}}'' @ nl @ js ''```''\<close>

definition bare_completion :: jsstring where
  \<open>bare_completion = js ''{"props":{"count":3},"wrappers":{"redux":false}}''\<close>

definition js_tagged_completion :: jsstring where
  \<open>js_tagged_completion = js ''```js'' @ nl @ js ''{}'' @ nl @ js ''```''\<close>

definition fenced_value :: json where
  "fenced_value =
     JObj [(js ''props'', JObj [(js ''title'', JStr (js ''X''))]),
           (js ''wrappers'', JObj [(js ''router'', JBool True)])]"

definition bare_value :: json where
  "bare_value =
     JObj [(js ''props'', JObj [(js ''count'', JNum (js ''3''))]),
           (js ''wrappers'', JObj [(js ''redux'', JBool False)])]"

definition two_files :: "(jsstring \<times> jsstring) list" where
  "two_files = [(js ''A.tsx'', component), (js ''B.tsx'', component)]"

definition numbered_files :: "(jsstring \<times> jsstring) list" where
  "numbered_files = [(js ''2'', component), (js ''1'', component)]"

text \<open>
  The state after the first of the three targets \<^verbatim>\<open>A.tsx\<close>, \<^verbatim>\<open>B.tsx\<close>, \<^verbatim>\<open>A.tsx\<close>, in a
  world that answers the three requests.
\<close>

definition after_first :: state where
  "after_first =
     analyze_loop (world two_files [Inr fenced_completion, Inr bare_completion, Inr bare_completion]) bulk 3
       [js ''A.tsx''] (started bulk [js ''A.tsx'', js ''B.tsx'', js ''A.tsx''] [])"

text \<open>The JSON text inside \<open>fenced_completion\<close>, and a completion with backticks in a string.\<close>

definition inner_json :: jsstring where
  \<open>inner_json = js ''{"props":{"title":"X"},"wrappers":{"router":true}}''\<close>


text \<open>A world whose only file is a short \<^verbatim>\<open>README.md\<close>; the heading the source puts before it.\<close>

definition readme_only :: env where
  "readme_only = world [(js ''README.md'', js ''Hi'')] []"

definition readme_heading :: jsstring where
  "readme_heading = nl @ nl @ js ''README Summary:'' @ nl"

text \<open>
  A world whose \<^verbatim>\<open>package.json\<close> is not JSON, beside a \<^verbatim>\<open>README.md\<close>; and a world in which
  \<^verbatim>\<open>README.md\<close> exists but cannot be read, as when it is a directory.
\<close>

definition broken_manifest :: env where
  "broken_manifest = world [(js ''package.json'', js ''{''), (js ''README.md'', js ''Hi'')] []"

definition unreadable_readme :: env where
  "unreadable_readme =
     (world [] [])\<lparr>existsSync := (\<lambda>p. p = js ''README.md''),
                   readFileSync := (\<lambda>p. Inl (Error (js ''EISDIR'')))\<rparr>"

section \<open>The parser consumes what it reads\<close>

lemma parse_chars_shorter:
  "parse_chars acc s = Some (str, r) \<Longrightarrow> length r < length s"
proof (induction s arbitrary: acc rule: length_induct)
  case (1 s)
  then obtain c cs where s: "s = c # cs"
    by (cases s) auto
  have ih: "length r < length t"
    if "parse_chars acc' t = Some (str, r)" and "length t < length s" for acc' t
    using 1 that by blast
  from 1(2) show ?case
    by (auto simp: s split: if_splits list.splits option.splits dest!: ih)
qed

lemma skip_ws_le: "length (skip_ws s) \<le> length s"
  by (simp add: skip_ws_def length_dropWhile_le)

lemma skip_ws_Cons_shorter: "skip_ws s = c # cs \<Longrightarrow> length cs < length s"
  using skip_ws_le [of s] by simp

lemma parse_digits_le: "parse_digits s = Some (ds, r) \<Longrightarrow> length r \<le> length s"
  by (auto simp: parse_digits_def length_dropWhile_le split: if_splits)

lemma parse_int_part_shorter: "parse_int_part s = Some (i, r) \<Longrightarrow> length r < length s"
  by (cases s) (auto simp: parse_int_part_def less_Suc_eq_le length_dropWhile_le split: if_splits)

lemma parse_frac_le: "parse_frac s = Some (f, r) \<Longrightarrow> length r \<le> length s"
  by (cases s) (auto simp: parse_frac_def split: if_splits option.splits dest!: parse_digits_le)

lemma parse_exp_le: "parse_exp s = Some (e, r) \<Longrightarrow> length r \<le> length s"
  by (cases s; cases "tl s")
     (auto simp: parse_exp_def split: if_splits option.splits dest!: parse_digits_le)

lemma parse_number_shorter:
  assumes "parse_number s = Some (tok, r)"
  shows "length r < length s"
proof -
  define p where "p = (case s of c # cs \<Rightarrow> if c = 0x2D then ([c], cs) else ([], s) | [] \<Rightarrow> ([], s))"
  have l1: "length (snd p) \<le> length s"
    by (auto simp: p_def split: list.splits)
  from assms obtain i s2 f s3 e where
    i: "parse_int_part (snd p) = Some (i, s2)" and f: "parse_frac s2 = Some (f, s3)"
    and e: "parse_exp s3 = Some (e, r)"
    by (auto simp: parse_number_def p_def [symmetric] split: option.splits prod.splits)
  from parse_int_part_shorter [OF i] parse_frac_le [OF f] parse_exp_le [OF e] l1
  show ?thesis by simp
qed

lemma parse_scalar_shorter:
  "parse_scalar s = Some (v, r) \<Longrightarrow> length r < length s"
  by (cases s)
     (auto simp: parse_scalar_def split: if_splits option.splits
       dest!: parse_chars_shorter parse_number_shorter)


lemma parse_shorter:
  "parse_value s = Some (v, r) \<longrightarrow> length r < length s"
  "parse_elements acc1 s1 = Some (vs, r1) \<longrightarrow> length r1 < length s1"
  "parse_members acc2 s2 = Some (ps, r2) \<longrightarrow> length r2 < length s2"
proof (induction s and acc1 s1 and acc2 s2 arbitrary: v r and vs r1 and ps r2
    rule: parse_value_parse_elements_parse_members.induct)
  case (1 s)
  show ?case
  proof
    assume a: "parse_value s = Some (v, r)"
    then obtain c cs where sk: "skip_ws s = c # cs"
      by (subst (asm) parse_value.simps) (auto split: list.splits)
    have lcs: "length cs < length s"
      using sk by (rule skip_ws_Cons_shorter)
    consider (obj) "c = 0x7B" | (arr) "c \<noteq> 0x7B" "c = 0x5B" | (scalar) "c \<noteq> 0x7B" "c \<noteq> 0x5B"
      by blast
    then show "length r < length s"
    proof cases
      case obj
      from a sk obj obtain d ds where sk2: "skip_ws cs = d # ds"
        by (subst (asm) parse_value.simps) (auto split: list.splits)
      show ?thesis
      proof (cases "d = 0x7D")
        case True
        with a sk obj sk2 have "r = ds"
          by (subst (asm) parse_value.simps) simp
        with skip_ws_Cons_shorter [OF sk2] lcs show ?thesis by simp
      next
        case False
        with a sk obj sk2 obtain ps where "parse_members [] cs = Some (ps, r)"
          by (subst (asm) parse_value.simps) auto
        with 1(1) [OF sk obj sk2 False] lcs show ?thesis by fastforce
      qed
    next
      case arr
      from a sk arr obtain d ds where sk2: "skip_ws cs = d # ds"
        by (subst (asm) parse_value.simps) (auto split: list.splits)
      show ?thesis
      proof (cases "d = 0x5D")
        case True
        with a sk arr sk2 have "r = ds"
          by (subst (asm) parse_value.simps) simp
        with skip_ws_Cons_shorter [OF sk2] lcs show ?thesis by simp
      next
        case False
        with a sk arr sk2 obtain vs where "parse_elements [] cs = Some (vs, r)"
          by (subst (asm) parse_value.simps) auto
        with 1(2) [OF sk arr(1) arr(2) sk2 False] lcs show ?thesis by fastforce
      qed
    next
      case scalar
      with a sk have "parse_scalar (c # cs) = Some (v, r)"
        by (subst (asm) parse_value.simps) simp
      from parse_scalar_shorter [OF this] skip_ws_le [of s] sk show ?thesis by simp
    qed
  qed
next
  case (2 acc s)
  show ?case
  proof
    assume a: "parse_elements acc s = Some (vs, r1)"
    then obtain v r where pv: "parse_value s = Some (v, r)" and lr: "length r < length s"
      by (subst (asm) parse_elements.simps) (auto split: option.splits if_splits)
    from a pv lr obtain d ds where sk: "skip_ws r = d # ds"
      by (subst (asm) parse_elements.simps) (auto split: list.splits)
    have lds: "length ds < length r"
      using sk by (rule skip_ws_Cons_shorter)
    show "length r1 < length s"
    proof (cases "d = 0x2C")
      case True
      with a pv lr sk have "parse_elements (acc @ [v]) ds = Some (vs, r1)"
        by (subst (asm) parse_elements.simps) simp
      with 2(2) [OF pv _ lr sk True] lds lr show ?thesis by fastforce
    next
      case False
      with a pv lr sk have "r1 = ds"
        by (subst (asm) parse_elements.simps) (auto split: if_splits)
      with lds lr show ?thesis by simp
    qed
  qed
next
  case (3 acc s)
  show ?case
  proof
    assume a: "parse_members acc s = Some (ps, r2)"
    then obtain q cs where sk: "skip_ws s = q # cs" and q: "q = 0x22"
      by (subst (asm) parse_members.simps) (auto split: list.splits if_splits)
    from a sk q obtain k r where pc: "parse_chars [] cs = Some (k, r)"
      by (subst (asm) parse_members.simps) (auto split: option.splits)
    from a sk q pc obtain colon t1 where sk1: "skip_ws r = colon # t1"
      and colon: "colon = 0x3A \<and> length t1 < length s"
      by (subst (asm) parse_members.simps) (auto split: list.splits if_splits)
    from a sk q pc sk1 colon obtain v t2 where pv: "parse_value t1 = Some (v, t2)"
      and l2: "length t2 < length t1"
      by (subst (asm) parse_members.simps) (auto split: option.splits if_splits)
    from a sk q pc sk1 colon pv l2 obtain d ds where sk2: "skip_ws t2 = d # ds"
      by (subst (asm) parse_members.simps) (auto split: list.splits)
    have lds: "length ds < length t2"
      using sk2 by (rule skip_ws_Cons_shorter)
    show "length r2 < length s"
    proof (cases "d = 0x2C")
      case True
      with a sk q pc sk1 colon pv l2 sk2 have "parse_members (define_own k v acc) ds = Some (ps, r2)"
        by (subst (asm) parse_members.simps) simp
      with 3(2) [OF sk q pc _ sk1 colon pv _ l2 sk2 True] lds l2 colon show ?thesis by fastforce
    next
      case False
      with a sk q pc sk1 colon pv l2 sk2 have "r2 = ds"
        by (subst (asm) parse_members.simps) (auto split: if_splits)
      with lds l2 colon show ?thesis by simp
    qed
  qed
qed


lemma parse_value_shorter: "parse_value s = Some (v, r) \<Longrightarrow> length r < length s"
  using parse_shorter(1) by blast

lemma parse_elements_unguarded:
  "parse_elements acc s =
     (case parse_value s of
        None \<Rightarrow> None
      | Some (v, r) \<Rightarrow>
          (case skip_ws r of
             [] \<Rightarrow> None
           | d # ds \<Rightarrow>
               if d = 0x2C then parse_elements (acc @ [v]) ds
               else if d = 0x5D then Some (acc @ [v], ds)
               else None))"
proof (cases "parse_value s")
  case None
  then show ?thesis
    by (subst parse_elements.simps) (simp del: parse_value.simps parse_elements.simps)
next
  case (Some p)
  obtain v r where p: "p = (v, r)" by (cases p)
  have "length r < length s"
    using Some p parse_value_shorter by blast
  then show ?thesis
    by (subst parse_elements.simps)
       (simp add: Some p del: parse_value.simps parse_elements.simps)
qed

lemma parse_members_unguarded:
  "parse_members acc s =
     (case skip_ws s of
        [] \<Rightarrow> None
      | q # cs \<Rightarrow>
          if q = 0x22 then
            (case parse_chars [] cs of
               None \<Rightarrow> None
             | Some (k, r) \<Rightarrow>
                 (case skip_ws r of
                    [] \<Rightarrow> None
                  | colon # r1 \<Rightarrow>
                      if colon = 0x3A then
                        (case parse_value r1 of
                           None \<Rightarrow> None
                         | Some (v, r2) \<Rightarrow>
                             (case skip_ws r2 of
                                [] \<Rightarrow> None
                              | d # ds \<Rightarrow>
                                  if d = 0x2C then parse_members (define_own k v acc) ds
                                  else if d = 0x7D then Some (define_own k v acc, ds)
                                  else None))
                      else None))
          else None)"
proof (cases "skip_ws s")
  case Nil
  then show ?thesis
    by (subst parse_members.simps) (simp del: parse_value.simps parse_members.simps)
next
  case (Cons q cs)
  note sk = this
  show ?thesis
  proof (cases "parse_chars [] cs")
    case None
    with sk show ?thesis
      by (subst parse_members.simps) (simp del: parse_value.simps parse_members.simps)
  next
    case (Some p)
    obtain k r where p: "p = (k, r)" by (cases p)
    show ?thesis
    proof (cases "skip_ws r")
      case Nil
      with sk Some p show ?thesis
        by (subst parse_members.simps) (simp del: parse_value.simps parse_members.simps)
    next
      case (Cons colon r1)
      have l1: "length r1 < length s"
        using skip_ws_Cons_shorter [OF sk] parse_chars_shorter [of "[]" cs k r] Some p
          skip_ws_Cons_shorter [OF Cons] by simp
      show ?thesis
      proof (cases "parse_value r1")
        case None
        with sk Some p Cons l1 show ?thesis
          by (subst parse_members.simps) (simp del: parse_value.simps parse_members.simps)
      next
        case pv: (Some w)
        obtain v r2 where w: "w = (v, r2)" by (cases w)
        have "length r2 < length r1"
          using pv w parse_value_shorter by blast
        with sk Some p Cons l1 pv w show ?thesis
          by (subst parse_members.simps) (simp del: parse_value.simps parse_members.simps)
      qed
    qed
  qed
qed

section \<open>Fence markers and trimming\<close>

lemma replace_all_no_match:
  "\<not> sublist pat s \<Longrightarrow> replace_all pat s = s"
  by (induction s) (auto simp: sublist_Cons_right)

lemma fence_sublist_fence_json: "sublist fence fence_json"
proof -
  have "prefix fence fence_json"
    by (simp add: fence_def fence_json_def js_def)
  then show ?thesis
    by (rule prefix_imp_sublist)
qed

lemma fence_unfold: "fence = [0x60, 0x60, 0x60]"
  by (simp add: fence_def js_def)

lemma fence_json_unfold: "fence_json = [0x60, 0x60, 0x60, 0x6A, 0x73, 0x6F, 0x6E]"
  by (simp add: fence_json_def js_def)

lemma replace_fence_head:
  "\<not> prefix [0x60, 0x60] s \<Longrightarrow> \<not> prefix [0x60, 0x60] (replace_all fence s)"
proof (cases s)
  case Nil
  then show ?thesis by simp
next
  case (Cons c cs)
  assume np: "\<not> prefix [0x60, 0x60] s"
  show ?thesis
  proof (cases cs)
    case Nil
    with Cons show ?thesis by (simp add: fence_unfold)
  next
    case (Cons d ds)
    with \<open>s = c # cs\<close> np show ?thesis
      by (cases ds) (auto simp: fence_unfold)
  qed
qed

lemma replace_fence_clean: "\<not> sublist fence (replace_all fence s)"
proof (induction fence s rule: replace_all.induct)
  case 1
  then show ?case by (simp add: fence_unfold)
next
  case (2 c cs)
  show ?case
  proof (cases "prefix fence (c # cs)")
    case True
    with 2 show ?thesis by (simp add: fence_unfold)
  next
    case False
    have ne: "fence \<noteq> []" by (simp add: fence_unfold)
    from False ne have eq: "replace_all fence (c # cs) = c # replace_all fence cs"
      by simp
    from 2(2) [OF ne False] have ih: "\<not> sublist fence (replace_all fence cs)" .
    have "\<not> prefix fence (c # replace_all fence cs)"
    proof
      assume p: "prefix fence (c # replace_all fence cs)"
      then have c: "c = 0x60" and q: "prefix [0x60, 0x60] (replace_all fence cs)"
        by (simp_all add: fence_unfold)
      from False c have "\<not> prefix [0x60, 0x60] cs"
        by (simp add: fence_unfold)
      then show False using q replace_fence_head by blast
    qed
    with ih eq show ?thesis
      by (simp add: sublist_Cons_right)
  qed
qed

lemma strip_fences_clean: "\<not> sublist fence (strip_fences raw)"
  by (simp add: strip_fences_def replace_fence_clean)

lemma replace_all_prefix:
  "pat \<noteq> [] \<Longrightarrow> replace_all pat (pat @ s) = replace_all pat s"
  by (cases pat) simp_all

lemma replace_all_separated:
  assumes "\<not> sublist pat xs" and "x \<notin> set pat"
  shows "replace_all pat (xs @ x # ys) = xs @ x # replace_all pat ys"
  using assms
proof (induction xs)
  case Nil
  then show ?case by (cases pat) auto
next
  case (Cons c cs)
  have "\<not> prefix pat (c # cs @ x # ys)"
  proof
    assume "prefix pat (c # cs @ x # ys)"
    then have "prefix pat ((c # cs) @ x # ys)" by simp
    then consider "prefix pat (c # cs)" | zs where "pat = (c # cs) @ zs" "zs \<noteq> []" "prefix zs (x # ys)"
      by (metis append.right_neutral prefix_append prefix_order.eq_iff prefixE prefixI)
    then show False
    proof cases
      case 1
      with Cons.prems(1) show ?thesis by (simp add: sublist_Cons_right)
    next
      case 2
      then have "x \<in> set zs" by (cases zs) auto
      with 2 Cons.prems(2) show ?thesis by simp
    qed
  qed
  moreover have "\<not> sublist pat cs"
    using Cons.prems(1) by (simp add: sublist_Cons_right)
  ultimately show ?case
    using Cons by (cases pat) auto
qed

lemma trim_leading: "is_js_space c \<Longrightarrow> trim (c # s) = trim s"
  by (simp add: trim_def)

lemma trim_trailing: "trim (s @ [c]) = trim s" if "is_js_space c"
proof (cases "\<forall>x\<in>set s. is_js_space x")
  case True
  then have "dropWhile is_js_space s = []" and "dropWhile is_js_space (s @ [c]) = []"
    using that by simp_all
  then show ?thesis
    by (simp only: trim_def)
next
  case False
  then have "dropWhile is_js_space (s @ [c]) = dropWhile is_js_space s @ [c]"
    by (auto simp: dropWhile_append)
  then show ?thesis
    by (simp add: trim_def that)
qed

lemma nl_space: "is_js_space 0x0A"
  by (simp add: is_js_space_def)


lemma fence_json_fenced:
  assumes "\<not> sublist fence inner"
  shows "trim (strip_fences (fence_json @ nl @ inner @ nl @ fence)) = trim inner"
proof -
  have nj: "\<not> sublist fence_json inner"
    using assms fence_sublist_fence_json sublist_order.order_trans by blast
  have "replace_all fence_json (fence_json @ nl @ inner @ nl @ fence)
          = replace_all fence_json ([] @ 0x0A # (inner @ 0x0A # fence))"
    by (simp add: replace_all_prefix fence_json_unfold nl_def)
  also have "\<dots> = 0x0A # replace_all fence_json (inner @ 0x0A # fence)"
    by (subst replace_all_separated) (simp_all add: fence_json_unfold)
  also have "\<dots> = 0x0A # inner @ 0x0A # replace_all fence_json fence"
    using nj by (subst replace_all_separated) (simp_all add: fence_json_unfold)
  also have "replace_all fence_json fence = fence"
    by (simp add: fence_json_unfold fence_unfold)
  finally have 1: "replace_all fence_json (fence_json @ nl @ inner @ nl @ fence)
                     = [] @ 0x0A # (inner @ 0x0A # fence)"
    by simp
  have "replace_all fence ([] @ 0x0A # (inner @ 0x0A # fence)) = 0x0A # replace_all fence (inner @ 0x0A # fence)"
    by (subst replace_all_separated) (simp_all add: fence_unfold)
  also have "\<dots> = 0x0A # inner @ 0x0A # replace_all fence fence"
    using assms by (subst replace_all_separated) (simp_all add: fence_unfold)
  also have "replace_all fence fence = []"
    by (simp add: fence_unfold)
  finally have "strip_fences (fence_json @ nl @ inner @ nl @ fence) = 0x0A # (inner @ [0x0A])"
    by (simp add: strip_fences_def 1)
  then show ?thesis
    by (simp add: trim_leading trim_trailing nl_space)
qed

lemma fence_fenced:
  assumes "\<not> sublist fence inner"
  shows "trim (strip_fences (fence @ nl @ inner @ nl @ fence)) = trim inner"
proof -
  have nj: "\<not> sublist fence_json inner"
    using assms fence_sublist_fence_json sublist_order.order_trans by blast
  have "replace_all fence_json (fence @ nl @ inner @ nl @ fence)
          = replace_all fence_json (fence @ 0x0A # (inner @ 0x0A # fence))"
    by (simp add: nl_def)
  also have "\<dots> = fence @ 0x0A # replace_all fence_json (inner @ 0x0A # fence)"
    by (subst replace_all_separated) (simp_all add: fence_json_unfold fence_unfold sublist_Cons_right)
  also have "\<dots> = fence @ 0x0A # inner @ 0x0A # replace_all fence_json fence"
    using nj by (subst replace_all_separated) (simp_all add: fence_json_unfold)
  also have "replace_all fence_json fence = fence"
    by (simp add: fence_json_unfold fence_unfold)
  finally have 1: "replace_all fence_json (fence @ nl @ inner @ nl @ fence)
                     = fence @ ([] @ 0x0A # (inner @ 0x0A # fence))"
    by simp
  have "replace_all fence (fence @ ([] @ 0x0A # (inner @ 0x0A # fence)))
          = replace_all fence ([] @ 0x0A # (inner @ 0x0A # fence))"
    by (rule replace_all_prefix) (simp add: fence_unfold)
  also have "\<dots> = 0x0A # replace_all fence (inner @ 0x0A # fence)"
    by (subst replace_all_separated) (simp_all add: fence_unfold)
  also have "\<dots> = 0x0A # inner @ 0x0A # replace_all fence fence"
    using assms by (subst replace_all_separated) (simp_all add: fence_unfold)
  also have "replace_all fence fence = []"
    by (simp add: fence_unfold)
  finally have "strip_fences (fence @ nl @ inner @ nl @ fence) = 0x0A # (inner @ [0x0A])"
    by (simp add: strip_fences_def 1)
  then show ?thesis
    by (simp add: trim_leading trim_trailing nl_space)
qed

text \<open>The replacements only delete: what is left is a subsequence of the text.\<close>

lemma replace_all_subseq: "subseq (replace_all pat s) s"
proof (induction pat s rule: replace_all.induct)
  case (1 pat)
  show ?case by simp
next
  case (2 pat c cs)
  show ?case
  proof (cases "pat \<noteq> [] \<and> prefix pat (c # cs)")
    case True
    then have "subseq (replace_all pat (drop (length pat) (c # cs))) (drop (length pat) (c # cs))"
      using 2 by simp
    moreover have "subseq (drop (length pat) (c # cs)) (c # cs)"
      by (rule suffix_imp_subseq) (rule suffix_drop)
    ultimately have "subseq (replace_all pat (drop (length pat) (c # cs))) (c # cs)"
      by (rule subseq_order.order_trans)
    then show ?thesis
      using True by (subst replace_all.simps) simp
  next
    case False
    then show ?thesis
      using 2 by (subst replace_all.simps) auto
  qed
qed

lemma strip_fences_subseq: "subseq (strip_fences raw) raw"
  unfolding strip_fences_def
  using replace_all_subseq [of fence "replace_all fence_json raw"] replace_all_subseq [of fence_json raw]
  by (rule subseq_order.order_trans)

text \<open>
  A text whose backticks all belong to markers: the first replacement removes the
  markers followed by \<^verbatim>\<open>json\<close> with these letters, the second the markers that are left.
\<close>

lemma json_unfold: "js ''json'' = [0x6A, 0x73, 0x6F, 0x6E]"
  by (simp add: js_def)









lemma no_json_marker_in_tagged_fence:
  assumes "0x60 \<notin> set tag" and "\<not> prefix (js ''json'') tag"
  shows "\<not> sublist fence_json (fence @ tag)"
proof -
  have "\<not> sublist fence_json tag"
    using assms(1) set_mono_sublist [of fence_json tag] by (auto simp: fence_json_unfold)
  moreover have "\<not> prefix fence_json (0x60 # 0x60 # 0x60 # tag)"
    using assms(2) by (simp add: fence_json_unfold json_unfold)
  moreover have "\<not> prefix fence_json (0x60 # 0x60 # tag)" "\<not> prefix fence_json (0x60 # tag)"
    using assms(1) by (cases tag; auto simp: fence_json_unfold)+
  ultimately show ?thesis
    by (simp add: fence_unfold sublist_Cons_right)
qed

lemma tagged_fence_stripped:
  assumes "0x60 \<notin> set tag" and "\<not> prefix (js ''json'') tag" and "\<not> sublist fence inner"
  shows "strip_fences (fence @ tag @ nl @ inner @ nl @ fence) = tag @ nl @ inner @ nl"
proof -
  have nj: "\<not> sublist fence_json inner"
    using assms(3) fence_sublist_fence_json sublist_order.order_trans by blast
  have nt: "\<not> sublist fence tag"
    using assms(1) set_mono_sublist [of fence tag] by (auto simp: fence_unfold)
  have r: "fence @ tag @ nl @ inner @ nl @ fence = (fence @ tag) @ 0x0A # (inner @ 0x0A # fence)"
    by (simp add: nl_def)
  have "replace_all fence_json ((fence @ tag) @ 0x0A # (inner @ 0x0A # fence))
          = (fence @ tag) @ 0x0A # replace_all fence_json (inner @ 0x0A # fence)"
    using no_json_marker_in_tagged_fence [OF assms(1,2)]
    by (intro replace_all_separated) (simp_all add: fence_json_unfold)
  also have "replace_all fence_json (inner @ 0x0A # fence) = inner @ 0x0A # replace_all fence_json fence"
    using nj by (intro replace_all_separated) (simp_all add: fence_json_unfold)
  also have "replace_all fence_json fence = fence"
    by (simp add: fence_json_unfold fence_unfold)
  finally have 1: "replace_all fence_json ((fence @ tag) @ 0x0A # (inner @ 0x0A # fence))
                     = fence @ (tag @ 0x0A # (inner @ 0x0A # fence))"
    by simp
  have "replace_all fence (fence @ (tag @ 0x0A # (inner @ 0x0A # fence)))
          = replace_all fence (tag @ 0x0A # (inner @ 0x0A # fence))"
    by (rule replace_all_prefix) (simp add: fence_unfold)
  also have "\<dots> = tag @ 0x0A # replace_all fence (inner @ 0x0A # fence)"
    using nt by (intro replace_all_separated) (simp_all add: fence_unfold)
  also have "replace_all fence (inner @ 0x0A # fence) = inner @ 0x0A # replace_all fence fence"
    using assms(3) by (intro replace_all_separated) (simp_all add: fence_unfold)
  also have "replace_all fence fence = []"
    by (simp add: fence_unfold)
  finally have 2: "replace_all fence (fence @ (tag @ 0x0A # (inner @ 0x0A # fence)))
                     = tag @ 0x0A # inner @ [0x0A]" .
  show ?thesis
    unfolding strip_fences_def r 1 2 by (simp add: nl_def)
qed

section \<open>The text of a value is parsed back\<close>

lemma hex_value_digit:
  assumes "d < 16"
  shows "hex_value (hex_digit d) = Some d"
proof -
  from assms have "d = 0 \<or> d = 1 \<or> d = 2 \<or> d = 3 \<or> d = 4 \<or> d = 5 \<or> d = 6 \<or> d = 7
      \<or> d = 8 \<or> d = 9 \<or> d = 10 \<or> d = 11 \<or> d = 12 \<or> d = 13 \<or> d = 14 \<or> d = 15"
    by arith
  then show ?thesis
    by (elim disjE) (simp_all add: hex_value_def hex_digit_def)
qed

lemma hex4_control:
  fixes c :: jschar
  assumes "c < 0x20"
  shows "hex4 0x30 0x30 (hex_digit (unat c div 16)) (hex_digit (unat c mod 16)) = Some c"
proof -
  have "unat c < 32"
    using assms by (simp add: word_less_nat_alt)
  then have a: "unat c div 16 < 16" and b: "unat c mod 16 < 16"
    by simp_all
  have z: "hex_value (0x30 :: jschar) = Some 0"
    by (simp add: hex_value_def)
  have "(of_nat (unat c div 16 * 16 + unat c mod 16) :: jschar) = c"
    by (simp only: div_mult_mod_eq) simp
  then show ?thesis
    by (simp add: hex4_def hex_value_digit [OF a] hex_value_digit [OF b] z)
qed

lemma parse_chars_escaped:
  "parse_chars acc (concat (map escaped s) @ 0x22 # r) = Some (rev acc @ s, r)"
proof (induction s arbitrary: acc)
  case Nil
  then show ?case by simp
next
  case (Cons c s)
  consider (q) "c = 0x22" | (b) "c = 0x5C" | (ctl) "c \<noteq> 0x22" "c \<noteq> 0x5C" "c < 0x20"
    | (plain) "c \<noteq> 0x22" "c \<noteq> 0x5C" "\<not> c < 0x20"
    by blast
  then show ?case
  proof cases
    case q
    have "escaped c = [0x5C, 0x22]" using q by (simp add: escaped_def)
    then show ?thesis by (simp add: escape_def Cons q)
  next
    case b
    have "escaped c = [0x5C, 0x5C]" using b by (simp add: escaped_def)
    then show ?thesis by (simp add: escape_def Cons b)
  next
    case ctl
    have "escaped c = [0x5C, 0x75, 0x30, 0x30, hex_digit (unat c div 16), hex_digit (unat c mod 16)]"
      using ctl by (simp add: escaped_def)
    then show ?thesis by (simp add: hex4_control [OF ctl(3)] Cons)
  next
    case plain
    have "escaped c = [c]" using plain by (simp add: escaped_def)
    then show ?thesis using plain by (simp add: Cons)
  qed
qed

lemma parse_scalar_quoted:
  "parse_scalar (quoted s @ r) = Some (JStr s, r)"
  by (simp add: parse_scalar_def quoted_def parse_chars_escaped)

lemma while_append:
  assumes "r = [] \<or> \<not> P (hd r)"
  shows "takeWhile P (xs @ r) = takeWhile P xs \<and> dropWhile P (xs @ r) = dropWhile P xs @ r"
proof (induction xs)
  case Nil
  with assms show ?case by (cases r) auto
next
  case (Cons x xs)
  then show ?case by simp
qed

lemma ends_value_no_digit: "ends_value r \<Longrightarrow> r = [] \<or> \<not> is_digit (hd r)"
  by (auto simp: ends_value_def is_digit_def)

lemma digits_append:
  "ends_value r \<Longrightarrow>
     takeWhile is_digit (xs @ r) = takeWhile is_digit xs
     \<and> dropWhile is_digit (xs @ r) = dropWhile is_digit xs @ r"
  by (rule while_append) (rule ends_value_no_digit)

lemma parse_digits_append:
  "parse_digits s = Some (ds, rest) \<Longrightarrow> ends_value r \<Longrightarrow> parse_digits (s @ r) = Some (ds, rest @ r)"
  by (auto simp: parse_digits_def digits_append split: if_splits)

lemma parse_int_part_append:
  "parse_int_part s = Some (i, rest) \<Longrightarrow> ends_value r \<Longrightarrow> parse_int_part (s @ r) = Some (i, rest @ r)"
  by (cases s) (auto simp: parse_int_part_def digits_append split: if_splits)

lemma parse_frac_append:
  "parse_frac s = Some (f, rest) \<Longrightarrow> ends_value r \<Longrightarrow> parse_frac (s @ r) = Some (f, rest @ r)"
proof (cases s)
  case Nil
  assume "parse_frac s = Some (f, rest)" "ends_value r"
  with Nil show ?thesis
    by (cases r) (auto simp: parse_frac_def ends_value_def)
next
  case (Cons c cs)
  assume "parse_frac s = Some (f, rest)" "ends_value r"
  with Cons show ?thesis
    by (auto simp: parse_frac_def split: if_splits option.splits dest: parse_digits_append)
qed

lemma parse_exp_append:
  "parse_exp s = Some (e, rest) \<Longrightarrow> ends_value r \<Longrightarrow> parse_exp (s @ r) = Some (e, rest @ r)"
proof (cases s)
  case Nil
  assume "parse_exp s = Some (e, rest)" "ends_value r"
  with Nil show ?thesis
    by (cases r) (auto simp: parse_exp_def ends_value_def)
next
  case (Cons c cs)
  assume a: "parse_exp s = Some (e, rest)" "ends_value r"
  show ?thesis
  proof (cases cs)
    case Nil
    with a Cons show ?thesis
      by (auto simp: parse_exp_def split: if_splits)
  next
    case (Cons g gs)
    with a \<open>s = c # cs\<close> show ?thesis
      by (auto simp: parse_exp_def split: if_splits option.splits dest: parse_digits_append)
  qed
qed

lemma parse_number_append:
  assumes "parse_number t = Some (tok, rest)" and "ends_value r"
  shows "parse_number (t @ r) = Some (tok, rest @ r)"
proof (cases t)
  case Nil
  with assms(1) show ?thesis
    by (simp add: parse_number_def parse_int_part_def)
next
  case (Cons c cs)
  show ?thesis
  proof (cases "c = 0x2D")
    case True
    with assms(1) Cons obtain i s2 f s3 e where
      i: "parse_int_part cs = Some (i, s2)" and f: "parse_frac s2 = Some (f, s3)"
      and e: "parse_exp s3 = Some (e, rest)" and tok: "tok = [c] @ i @ f @ e"
      by (auto simp: parse_number_def split: option.splits)
    from parse_int_part_append [OF i assms(2)] parse_frac_append [OF f assms(2)]
      parse_exp_append [OF e assms(2)] True Cons tok
    show ?thesis
      by (simp add: parse_number_def)
  next
    case False
    with assms(1) Cons obtain i s2 f s3 e where
      i: "parse_int_part t = Some (i, s2)" and f: "parse_frac s2 = Some (f, s3)"
      and e: "parse_exp s3 = Some (e, rest)" and tok: "tok = [] @ i @ f @ e"
      by (auto simp: parse_number_def split: option.splits)
    from parse_int_part_append [OF i assms(2)] parse_frac_append [OF f assms(2)]
      parse_exp_append [OF e assms(2)] False Cons tok
    show ?thesis
      by (simp add: parse_number_def)
  qed
qed

lemma parse_int_part_shape:
  "parse_int_part s = Some (i, r) \<Longrightarrow> i \<noteq> [] \<and> is_digit (hd i) \<and> is_digit (last i)"
proof (cases s)
  case Nil
  assume "parse_int_part s = Some (i, r)"
  with Nil show ?thesis by (simp add: parse_int_part_def)
next
  case (Cons c cs)
  assume a: "parse_int_part s = Some (i, r)"
  have "is_digit (last (c # takeWhile is_digit cs))" if "is_digit c"
    using that set_takeWhileD [of "last (takeWhile is_digit cs)" is_digit cs]
    by (cases "takeWhile is_digit cs = []") auto
  with a Cons show ?thesis
    by (auto simp: parse_int_part_def is_digit_def split: if_splits)
qed

lemma parse_digits_shape:
  "parse_digits s = Some (ds, r) \<Longrightarrow> ds \<noteq> [] \<and> is_digit (last ds)"
  using set_takeWhileD [of "last (takeWhile is_digit s)" is_digit s]
  by (auto simp: parse_digits_def split: if_splits)

lemma parse_frac_shape:
  "parse_frac s = Some (f, r) \<Longrightarrow> f \<noteq> [] \<longrightarrow> is_digit (last f)"
  by (cases s) (auto simp: parse_frac_def split: if_splits option.splits dest: parse_digits_shape)

lemma parse_exp_shape:
  "parse_exp s = Some (e, r) \<Longrightarrow> e \<noteq> [] \<longrightarrow> is_digit (last e)"
  by (cases s; cases "tl s")
     (auto simp: parse_exp_def split: if_splits option.splits dest: parse_digits_shape)

lemma parse_number_shape:
  assumes "parse_number t = Some (tok, rest)"
  shows "tok \<noteq> [] \<and> (hd tok = 0x2D \<or> is_digit (hd tok)) \<and> is_digit (last tok)"
proof -
  define sg where "sg = (case t of c # cs \<Rightarrow> if c = 0x2D then ([c], cs) else ([], t) | [] \<Rightarrow> ([], t))"
  have sg: "fst sg = [0x2D] \<or> fst sg = []"
    by (cases t) (simp_all add: sg_def)
  have "\<exists>i s2 f s3 e. parse_int_part (snd sg) = Some (i, s2) \<and> parse_frac s2 = Some (f, s3)
           \<and> parse_exp s3 = Some (e, rest) \<and> tok = fst sg @ i @ f @ e"
    using assms unfolding parse_number_def sg_def [symmetric]
    by (cases sg) (auto split: option.splits)
  then obtain i s2 f s3 e where i: "parse_int_part (snd sg) = Some (i, s2)"
    and f: "parse_frac s2 = Some (f, s3)" and e: "parse_exp s3 = Some (e, rest)"
    and tok: "tok = fst sg @ i @ f @ e"
    by blast
  from parse_int_part_shape [OF i] parse_frac_shape [OF f] parse_exp_shape [OF e] sg
  show ?thesis
    by (auto simp: tok last_append)
qed

lemma number_literal_shape:
  "number_literal t \<Longrightarrow> t \<noteq> [] \<and> (hd t = 0x2D \<or> is_digit (hd t)) \<and> is_digit (last t)"
  using parse_number_shape [of t t "[]"] by (simp add: number_literal_def)

lemma starts_value_facts:
  assumes "starts_value c"
  shows "\<not> is_json_ws c" and "\<not> is_js_space c" and "c \<noteq> 0x5D" and "c \<noteq> 0x7D" and "c \<noteq> 0x2C"
proof -
  have d: "unat c < 0x3A \<and> 0x30 \<le> unat c" if "is_digit c"
    using that by (simp add: is_digit_def word_le_nat_alt)
  have "unat c \<in> {0x22, 0x5B, 0x7B, 0x2D, 0x74, 0x66, 0x6E} \<or> (0x30 \<le> unat c \<and> unat c < 0x3A)"
    using assms d by (auto simp: starts_value_def)
  then show "\<not> is_json_ws c" and "\<not> is_js_space c" and "c \<noteq> 0x5D" and "c \<noteq> 0x7D" and "c \<noteq> 0x2C"
    by (auto simp: is_json_ws_def is_js_space_def word_le_nat_alt)
qed

lemma finishes_value_facts:
  assumes "finishes_value c"
  shows "\<not> is_js_space c"
proof -
  have d: "unat c < 0x3A \<and> 0x30 \<le> unat c" if "is_digit c"
    using that by (simp add: is_digit_def word_le_nat_alt)
  have "unat c \<in> {0x22, 0x5D, 0x7D, 0x65, 0x6C} \<or> (0x30 \<le> unat c \<and> unat c < 0x3A)"
    using assms d by (auto simp: finishes_value_def)
  then show ?thesis
    by (auto simp: is_js_space_def word_le_nat_alt)
qed

lemma skip_ws_starts: "starts_value c \<Longrightarrow> skip_ws (c # cs) = c # cs"
  by (simp add: skip_ws_def starts_value_facts)

lemma render_shape:
  "well_formed v \<Longrightarrow>
     render v \<noteq> [] \<and> starts_value (hd (render v)) \<and> finishes_value (last (render v))"
  by (cases v)
     (auto simp: starts_value_def finishes_value_def quoted_def boolean_text_def js_def
           dest: number_literal_shape)

lemma render_Cons: "well_formed v \<Longrightarrow> \<exists>c cs. render v = c # cs \<and> starts_value c"
  using render_shape [of v] by (cases "render v") auto

lemma trim_render: "well_formed v \<Longrightarrow> trim (render v) = render v"
proof -
  assume "well_formed v"
  from render_shape [OF this]
  have ne: "render v \<noteq> []" and h: "\<not> is_js_space (hd (render v))"
    and l: "\<not> is_js_space (last (render v))"
    by (simp_all add: starts_value_facts finishes_value_facts)
  have 1: "dropWhile is_js_space (render v) = render v"
    using ne h by (cases "render v") simp_all
  have 2: "dropWhile is_js_space (rev (render v)) = rev (render v)"
    using ne l by (cases "rev (render v)") (simp_all add: hd_rev [symmetric])
  show ?thesis
    by (simp add: trim_def 1 2)
qed

lemma ends_value_Cons:
  "ends_value (0x2C # r)" "ends_value (0x5D # r)" "ends_value (0x7D # r)" "ends_value []"
  by (simp_all add: ends_value_def)

lemma skip_ws_delimiter:
  "skip_ws (0x2C # r) = 0x2C # r" "skip_ws (0x5D # r) = 0x5D # r"
  "skip_ws (0x7D # r) = 0x7D # r" "skip_ws (0x3A # r) = 0x3A # r"
  "skip_ws (0x22 # r) = 0x22 # r" "skip_ws (0x5B # r) = 0x5B # r"
  "skip_ws (0x7B # r) = 0x7B # r"
  by (simp_all add: skip_ws_def is_json_ws_def)

lemma parse_elements_render:
  assumes "\<And>v r. v \<in> set vs \<Longrightarrow> ends_value r \<Longrightarrow> parse_value (render v @ r) = Some (v, r)"
    and "vs \<noteq> []"
  shows "parse_elements acc (join [0x2C] (map render vs) @ 0x5D # r) = Some (acc @ vs, r)"
  using assms
proof (induction vs arbitrary: acc)
  case Nil
  then show ?case by simp
next
  case (Cons v ws)
  show ?case
  proof (cases ws)
    case Nil
    have "parse_value (render v @ 0x5D # r) = Some (v, 0x5D # r)"
      using Cons.prems(1) by (simp add: ends_value_Cons)
    then show ?thesis
      using Nil
      by (subst parse_elements_unguarded)
         (simp add: ends_value_Cons skip_ws_delimiter del: parse_value.simps parse_elements.simps parse_members.simps)
  next
    case (Cons w ws')
    have j: "join [0x2C] (map render (v # ws)) @ 0x5D # r
             = render v @ 0x2C # (join [0x2C] (map render ws) @ 0x5D # r)"
      by (simp add: Cons)
    have "parse_value (render v @ 0x2C # (join [0x2C] (map render ws) @ 0x5D # r))
          = Some (v, 0x2C # (join [0x2C] (map render ws) @ 0x5D # r))"
      using Cons.prems(1) by (simp add: ends_value_Cons)
    moreover have "parse_elements (acc @ [v]) (join [0x2C] (map render ws) @ 0x5D # r)
          = Some ((acc @ [v]) @ ws, r)"
      using Cons.prems(1) Cons by (intro Cons.IH) (simp_all add: ends_value_Cons)
    ultimately show ?thesis
      unfolding j
      by (subst parse_elements_unguarded)
         (simp add: ends_value_Cons skip_ws_delimiter del: parse_value.simps parse_elements.simps parse_members.simps)
  qed
qed

lemma parse_members_render:
  assumes "\<And>p r. p \<in> set ps \<Longrightarrow> ends_value r \<Longrightarrow> parse_value (render (snd p) @ r) = Some (snd p, r)"
    and "ps \<noteq> []"
  shows "parse_members acc
           (join [0x2C] (map (\<lambda>p. quoted (fst p) @ 0x3A # render (snd p)) ps) @ 0x7D # r)
         = Some (foldl (\<lambda>a p. define_own (fst p) (snd p) a) acc ps, r)"
  using assms
proof (induction ps arbitrary: acc)
  case Nil
  then show ?case by simp
next
  case (Cons p qs)
  let ?m = "\<lambda>p. quoted (fst p) @ 0x3A # render (snd p)"
  have one: "parse_members acc (?m p @ d # rest)
             = (if d = 0x2C then parse_members (define_own (fst p) (snd p) acc) rest
                else Some (define_own (fst p) (snd p) acc, rest))"
    if "d = 0x2C \<or> d = 0x7D" for d rest
  proof -
    have e: "ends_value (d # rest)" and sk: "skip_ws (d # rest) = d # rest"
      using that by (auto simp: ends_value_Cons skip_ws_delimiter)
    have v: "parse_value (render (snd p) @ d # rest) = Some (snd p, d # rest)"
      using Cons.prems(1) e by simp
    have c: "parse_chars [] (concat (map escaped (fst p)) @ 0x22 # 0x3A # render (snd p) @ d # rest)
             = Some (fst p, 0x3A # render (snd p) @ d # rest)"
      using parse_chars_escaped [of "[]"] by simp
    show ?thesis
      using that
      by (subst parse_members_unguarded)
         (auto simp: quoted_def c v sk ends_value_Cons skip_ws_delimiter
               simp del: parse_value.simps parse_elements.simps parse_members.simps)
  qed
  show ?case
  proof (cases qs)
    case Nil
    then show ?thesis
      using one [of "0x7D" r] by simp
  next
    case (Cons q qs')
    have j: "join [0x2C] (map ?m (p # qs)) @ 0x7D # r
             = ?m p @ 0x2C # (join [0x2C] (map ?m qs) @ 0x7D # r)"
      by (simp add: Cons)
    have "parse_members (define_own (fst p) (snd p) acc) (join [0x2C] (map ?m qs) @ 0x7D # r)
          = Some (foldl (\<lambda>a p. define_own (fst p) (snd p) a) (define_own (fst p) (snd p) acc) qs, r)"
      using Cons.prems(1) Cons by (intro Cons.IH) (simp_all add: ends_value_Cons)
    then show ?thesis
      unfolding j using one [of "0x2C" "join [0x2C] (map ?m qs) @ 0x7D # r"]
      by simp
  qed
qed

lemma join_render_Cons:
  assumes "xs \<noteq> []" and "\<And>x. x \<in> set xs \<Longrightarrow> \<exists>c cs. x = c # cs \<and> starts_value c"
  shows "\<exists>c cs. join [0x2C] xs = c # cs \<and> starts_value c"
proof (cases xs)
  case Nil
  with assms show ?thesis by simp
next
  case (Cons x ys)
  obtain c cs where x: "x = c # cs" and c: "starts_value c"
    using assms(2) [of x] Cons by auto
  have "join [0x2C] xs = c # cs @ (if ys = [] then [] else 0x2C # join [0x2C] ys)"
    by (cases ys) (simp_all add: Cons x)
  with c show ?thesis by blast
qed

lemma parse_value_render:
  "well_formed v \<Longrightarrow> ends_value r \<Longrightarrow> parse_value (render v @ r) = Some (v, r)"
proof (induction v arbitrary: r)
  case JNull
  show ?case
    by (subst parse_value.simps)
       (simp add: js_def skip_ws_def is_json_ws_def parse_scalar_def
             del: parse_value.simps parse_elements.simps parse_members.simps)
next
  case (JBool b)
  show ?case
    by (subst parse_value.simps)
       (simp add: js_def boolean_text_def skip_ws_def is_json_ws_def parse_scalar_def
             del: parse_value.simps parse_elements.simps parse_members.simps)
next
  case (JNum t)
  then have n: "number_literal t" by simp
  from number_literal_shape [OF n] obtain c cs where t: "t = c # cs" and c: "c = 0x2D \<or> is_digit c"
    by (cases t) auto
  have sv: "starts_value c"
    using c by (auto simp: starts_value_def)
  have d: "unat c < 0x3A \<and> 0x30 \<le> unat c" if "is_digit c"
    using that by (simp add: is_digit_def word_le_nat_alt)
  have "unat c = 0x2D \<or> (0x30 \<le> unat c \<and> unat c < 0x3A)"
    using c d by auto
  then have ne: "c \<noteq> 0x7B" "c \<noteq> 0x5B" "c \<noteq> 0x22" "c \<noteq> 0x74" "c \<noteq> 0x66" "c \<noteq> 0x6E"
    by auto
  have p: "parse_number ((c # cs) @ r) = Some (c # cs, r)"
    using parse_number_append [of t t "[]" r] n JNum.prems(2) by (simp add: number_literal_def t)
  have "parse_scalar (c # cs @ r) = Some (JNum (c # cs), r)"
    using p ne by (simp add: parse_scalar_def js_def)
  then show ?case
    using ne skip_ws_starts [OF sv]
    by (subst parse_value.simps)
       (simp add: t ends_value_Cons skip_ws_delimiter del: parse_value.simps parse_elements.simps parse_members.simps)
next
  case (JStr s)
  have "parse_scalar (0x22 # concat (map escaped s) @ 0x22 # r) = Some (JStr s, r)"
    using parse_scalar_quoted [of s r] by (simp add: quoted_def)
  then show ?case
    by (subst parse_value.simps)
       (simp add: quoted_def ends_value_Cons skip_ws_delimiter del: parse_value.simps parse_elements.simps parse_members.simps)
next
  case (JArr vs)
  show ?case
  proof (cases "vs = []")
    case True
    then show ?thesis
      by (subst parse_value.simps)
         (simp add: ends_value_Cons skip_ws_delimiter del: parse_value.simps parse_elements.simps parse_members.simps)
  next
    case False
    have wf: "well_formed v" if "v \<in> set vs" for v
      using JArr.prems(1) that by simp
    have el: "parse_elements [] (join [0x2C] (map render vs) @ 0x5D # r) = Some ([] @ vs, r)"
      using JArr.IH wf False by (intro parse_elements_render) simp_all
    have "\<exists>c cs. x = c # cs \<and> starts_value c" if x: "x \<in> set (map render vs)" for x
    proof -
      obtain v where "v \<in> set vs" and "x = render v"
        using x by auto
      then show ?thesis
        using render_Cons [of v] wf by simp
    qed
    then obtain c cs where j: "join [0x2C] (map render vs) = c # cs" and c: "starts_value c"
      using join_render_Cons [of "map render vs"] False by auto
    have "skip_ws (join [0x2C] (map render vs) @ 0x5D # r) = c # cs @ 0x5D # r"
      using skip_ws_starts [OF c] by (simp add: j)
    moreover have "c \<noteq> 0x5D"
      using starts_value_facts [OF c] by simp
    ultimately show ?thesis
      using el
      by (subst parse_value.simps)
         (simp add: ends_value_Cons skip_ws_delimiter del: parse_value.simps parse_elements.simps parse_members.simps)
  qed
next
  case (JObj ps)
  let ?m = "\<lambda>p. quoted (fst p) @ 0x3A # render (snd p)"
  show ?case
  proof (cases "ps = []")
    case True
    then show ?thesis
      by (subst parse_value.simps)
         (simp add: ends_value_Cons skip_ws_delimiter del: parse_value.simps parse_elements.simps parse_members.simps)
  next
    case False
    have wf: "well_formed (snd p)" if "p \<in> set ps" for p
      using JObj.prems(1) that by simp
    have own: "foldl (\<lambda>acc p. define_own (fst p) (snd p) acc) [] ps = ps"
      using JObj.prems(1) by simp
    have ih: "parse_value (render (snd p) @ r) = Some (snd p, r)"
      if "p \<in> set ps" and "ends_value r" for p r
      using JObj.IH [of p "snd p" r] wf [of p] that by (cases p) (auto simp del: parse_value.simps)
    have me: "parse_members [] (join [0x2C] (map ?m ps) @ 0x7D # r) = Some (ps, r)"
      using parse_members_render [of ps "[]" r] ih False own by simp
    obtain cs where j: "join [0x2C] (map ?m ps) = 0x22 # cs"
      using False by (cases ps; cases "tl ps") (auto simp: quoted_def)
    show ?thesis
      using me
      by (subst parse_value.simps)
         (simp add: j ends_value_Cons skip_ws_delimiter del: parse_value.simps parse_elements.simps parse_members.simps)
  qed
qed

lemma JSON_parse_render: "well_formed v \<Longrightarrow> JSON_parse (render v) = Some v"
  using parse_value_render [of v "[]"]
  by (simp add: JSON_parse_def skip_ws_def ends_value_Cons del: parse_value.simps)

section \<open>Assignments to the accumulator\<close>

lemma own_set_prototype [simp]: "own (set_prototype v obj) = own obj"
  by (cases v) simp_all

lemma map_of_insert_index_other:
  "k' \<noteq> k \<Longrightarrow> map_of (insert_index n k v ps) k' = map_of ps k'"
  by (induction ps) (auto split: option.splits)

lemma map_of_insert_index_same:
  "k \<notin> fst ` set ps \<Longrightarrow> map_of (insert_index n k v ps) k = Some v"
  by (induction ps) (auto split: option.splits)

lemma keys_insert_index:
  "k \<notin> fst ` set ps \<Longrightarrow> filter (\<lambda>x. x \<noteq> k) (map fst (insert_index n k v ps)) = map fst ps"
  by (induction ps) (auto split: option.splits simp: filter_id_conv)

lemma set_keys_insert_index:
  "fst ` set (insert_index n k v ps) = insert k (fst ` set ps)"
  by (induction ps) (auto split: option.splits)

lemma set_keys_define_own:
  "fst ` set (define_own k v ps) = insert k (fst ` set ps)"
  by (cases "array_index k") (auto simp: define_own_def set_keys_insert_index dom_update)

lemma map_of_define_own_other:
  assumes "k' \<noteq> k"
  shows "map_of (define_own k v ps) k' = map_of ps k'"
proof (cases "k \<in> fst ` set ps")
  case True
  with assms show ?thesis
    by (simp add: define_own_def update_conv')
next
  case False
  with assms show ?thesis
    by (cases "array_index k")
       (auto simp: define_own_def map_of_insert_index_other map_add_def split: option.splits)
qed

lemma map_of_define_own_same: "map_of (define_own k v ps) k = Some v"
proof (cases "k \<in> fst ` set ps")
  case True
  then show ?thesis
    by (simp add: define_own_def update_conv')
next
  case False
  then have "map_of ps k = None"
    by (simp add: map_of_eq_None_iff)
  with False show ?thesis
    by (cases "array_index k")
       (simp_all add: define_own_def map_of_insert_index_same map_add_def)
qed

lemma keys_define_own_new:
  assumes "k \<notin> fst ` set ps"
  shows "filter (\<lambda>x. x \<noteq> k) (map fst (define_own k v ps)) = map fst ps"
proof (cases "array_index k")
  case None
  with assms show ?thesis
    by (auto simp: define_own_def filter_id_conv)
next
  case (Some n)
  with assms show ?thesis
    by (simp add: define_own_def keys_insert_index)
qed

lemma assign_other:
  "k' \<noteq> k \<Longrightarrow> map_of (own (assign k v obj)) k' = map_of (own obj) k'"
  by (simp add: assign_def update_conv' map_of_define_own_other)

lemma assign_same:
  "k \<noteq> proto_key \<Longrightarrow> map_of (own (assign k v obj)) k = Some v"
  by (simp add: assign_def update_conv' map_of_define_own_same)

lemma keys_assign_subset:
  "fst ` set (own (assign k v obj)) \<subseteq> insert k (fst ` set (own obj))"
  by (auto simp: assign_def set_keys_define_own dom_update)

lemma keys_assign_superset:
  "fst ` set (own obj) \<subseteq> fst ` set (own (assign k v obj))"
  by (auto simp: assign_def set_keys_define_own dom_update)

lemma keys_assign_order:
  "filter (\<lambda>x. x \<in> fst ` set (own obj)) (map fst (own (assign k v obj))) = map fst (own obj)"
proof (cases "k \<in> fst ` set (own obj)")
  case True
  then show ?thesis
    by (simp add: assign_def update_keys filter_id_conv)
next
  case False
  show ?thesis
  proof (cases "k = proto_key \<and> inherits_proto_accessor (proto obj)")
    case True
    with False show ?thesis
      by (simp add: assign_def filter_id_conv)
  next
    case no: False
    have "filter (\<lambda>x. x \<in> fst ` set (own obj)) (map fst (define_own k v (own obj)))
            = filter (\<lambda>x. x \<noteq> k) (map fst (define_own k v (own obj)))"
      using False by (intro filter_cong) (auto simp: set_keys_define_own)
    with False no show ?thesis
      by (auto simp: assign_def keys_define_own_new)
  qed
qed

lemma update_absent: "k \<notin> fst ` set ps \<Longrightarrow> AList.update k v ps = ps @ [(k, v)]"
  by (induction ps) auto

lemma assign_plain:
  "plain_key k \<Longrightarrow> assign k v obj = obj\<lparr>own := AList.update k v (own obj)\<rparr>"
  by (auto simp: assign_def plain_key_def define_own_def update_absent)

section \<open>One target, and the loop\<close>

lemma sleeps_append [simp]: "sleeps (xs @ ys) = sleeps xs + sleeps ys"
  by (simp add: sleeps_def)

lemma sleeps_Nil [simp]: "sleeps [] = 0"
  by (simp add: sleeps_def)

lemma sleeps_Cons [simp]: "sleeps (e # tr) = (if is_sleep e then 1 else 0) + sleeps tr"
  by (simp add: sleeps_def)

lemma analyze_file_masterAnalysis:
  "masterAnalysis (analyze_file E V n f st) =
     (case entry_of (outcome_of E V (requests st) f) of
        None \<Rightarrow> masterAnalysis st
      | Some v \<Rightarrow> assign f v (masterAnalysis st))"
  by (simp add: analyze_file_def try_body_def outcome_of_def emit_def Let_def
      split: sum.splits option.splits)

lemma analyze_file_requests:
  "requests (analyze_file E V n f st) = requests st + sent (outcome_of E V (requests st) f)"
  by (simp add: analyze_file_def try_body_def outcome_of_def emit_def Let_def
      split: sum.splits option.splits)

lemma analyze_file_sleeps:
  "sleeps (trace (analyze_file E V n f st)) =
     sleeps (trace st) + (if is_success (outcome_of E V (requests st) f) \<and> 1 < n then 1 else 0)"
  by (simp add: analyze_file_def try_body_def outcome_of_def emit_def Let_def
      split: sum.splits option.splits)

lemma analyze_file_skip:
  "\<not> existsSync E f \<Longrightarrow>
     analyze_file E V n f st =
       st\<lparr>trace := trace st @ (case skip_line V f of None \<Rightarrow> [] | Some line \<Rightarrow> [ConsoleLog line])\<rparr>"
  by (simp add: analyze_file_def emit_def split: option.splits)

lemma loop_append:
  "analyze_loop E V n (xs @ ys) st = analyze_loop E V n ys (analyze_loop E V n xs st)"
  by (induction xs arbitrary: st) simp_all

lemma loop_untouched:
  "k \<notin> set fs \<Longrightarrow>
     map_of (own (masterAnalysis (analyze_loop E V n fs st))) k = map_of (own (masterAnalysis st)) k"
proof (induction fs arbitrary: st)
  case Nil
  then show ?case by simp
next
  case (Cons f fs)
  then have "map_of (own (masterAnalysis (analyze_file E V n f st))) k
               = map_of (own (masterAnalysis st)) k"
    by (simp add: analyze_file_masterAnalysis assign_other split: option.splits)
  with Cons show ?case by simp
qed

lemma file_keys_mono:
  "fst ` set (own (masterAnalysis st)) \<subseteq> fst ` set (own (masterAnalysis (analyze_file E V n f st)))"
  using keys_assign_superset
  by (simp add: analyze_file_masterAnalysis split: option.splits)

lemma file_keys_order:
  "filter (\<lambda>x. x \<in> fst ` set (own (masterAnalysis st)))
          (map fst (own (masterAnalysis (analyze_file E V n f st))))
     = map fst (own (masterAnalysis st))"
  by (simp add: analyze_file_masterAnalysis keys_assign_order filter_id_conv split: option.splits)

lemma loop_keys_mono:
  "fst ` set (own (masterAnalysis st)) \<subseteq> fst ` set (own (masterAnalysis (analyze_loop E V n fs st)))"
proof (induction fs arbitrary: st)
  case Nil
  then show ?case by simp
next
  case (Cons f fs)
  show ?case
    using file_keys_mono [of st E V n f] Cons [of "analyze_file E V n f st"] by auto
qed

lemma loop_keys_order:
  "filter (\<lambda>x. x \<in> fst ` set (own (masterAnalysis st)))
          (map fst (own (masterAnalysis (analyze_loop E V n fs st))))
     = map fst (own (masterAnalysis st))"
proof (induction fs arbitrary: st)
  case Nil
  then show ?case by (simp add: filter_id_conv)
next
  case (Cons f fs)
  let ?st1 = "analyze_file E V n f st"
  let ?K0 = "fst ` set (own (masterAnalysis st))"
  let ?K1 = "fst ` set (own (masterAnalysis ?st1))"
  let ?ks = "map fst (own (masterAnalysis (analyze_loop E V n fs ?st1)))"
  have sub: "?K0 \<subseteq> ?K1" by (rule file_keys_mono)
  have "filter (\<lambda>x. x \<in> ?K0) ?ks = filter (\<lambda>x. x \<in> ?K0) (filter (\<lambda>x. x \<in> ?K1) ?ks)"
    using sub by (simp only: filter_filter) (rule filter_cong [OF refl], auto)
  also have "\<dots> = filter (\<lambda>x. x \<in> ?K0) (map fst (own (masterAnalysis ?st1)))"
    by (simp only: Cons)
  also have "\<dots> = map fst (own (masterAnalysis st))"
    by (rule file_keys_order)
  finally show ?case by simp
qed

lemma loop_keys_exist:
  "fst ` set (own (masterAnalysis (analyze_loop E V n fs st)))
     \<subseteq> fst ` set (own (masterAnalysis st)) \<union> {f \<in> set fs. existsSync E f}"
proof (induction fs arbitrary: st)
  case Nil
  then show ?case by simp
next
  case (Cons f fs)
  have "fst ` set (own (masterAnalysis (analyze_file E V n f st)))
          \<subseteq> fst ` set (own (masterAnalysis st)) \<union> {g. g = f \<and> existsSync E f}"
    using keys_assign_subset
    by (cases "existsSync E f")
       (auto simp: analyze_file_masterAnalysis outcome_of_def split: option.splits)
  with Cons [of "analyze_file E V n f st"] show ?case by auto
qed

lemma loop_requests_cong:
  "masterAnalysis st = masterAnalysis st' \<Longrightarrow> requests st = requests st' \<Longrightarrow>
     masterAnalysis (analyze_loop E V n fs st) = masterAnalysis (analyze_loop E V n' fs st')
     \<and> requests (analyze_loop E V n fs st) = requests (analyze_loop E V n' fs st')"
proof (induction fs arbitrary: st st')
  case Nil
  then show ?case by simp
next
  case (Cons f fs)
  have "masterAnalysis (analyze_file E V n f st) = masterAnalysis (analyze_file E V n' f st')"
    and "requests (analyze_file E V n f st) = requests (analyze_file E V n' f st')"
    using Cons.prems
    by (simp_all add: analyze_file_masterAnalysis analyze_file_requests split: option.splits)
  then show ?case
    using Cons.IH by simp
qed

lemma loop_entry:
  "i < length fs \<Longrightarrow> fs ! i \<noteq> proto_key \<Longrightarrow> fs ! i \<notin> set (drop (Suc i) fs) \<Longrightarrow>
   entry_of (outcomes E V (requests st) fs ! i) = Some v \<Longrightarrow>
     map_of (own (masterAnalysis (analyze_loop E V n fs st))) (fs ! i) = Some v"
proof (induction fs arbitrary: st i)
  case Nil
  then show ?case by simp
next
  case (Cons f fs)
  show ?case
  proof (cases i)
    case 0
    with Cons.prems have "f \<notin> set fs" and "f \<noteq> proto_key"
      and "entry_of (outcome_of E V (requests st) f) = Some v"
      by simp_all
    then show ?thesis
      using 0 by (simp add: loop_untouched analyze_file_masterAnalysis assign_same)
  next
    case (Suc j)
    with Cons.prems show ?thesis
      using Cons.IH [of j "analyze_file E V n f st"]
      by (simp add: analyze_file_requests)
  qed
qed

lemma loop_sleeps:
  "sleeps (trace (analyze_loop E V n fs st)) =
     sleeps (trace st)
       + (if 1 < n then length (filter is_success (outcomes E V (requests st) fs)) else 0)"
  by (induction fs arbitrary: st) (simp_all add: analyze_file_sleeps analyze_file_requests)

section \<open>Runs in which every target succeeds\<close>

lemma loop_all_succeed:
  "outcomes E V (requests st) fs = map Succeeded vs \<Longrightarrow> \<forall>f\<in>set fs. plain_key f \<Longrightarrow>
     own (masterAnalysis (analyze_loop E V n fs st)) = AList.updates fs vs (own (masterAnalysis st))"
proof (induction fs arbitrary: st vs)
  case Nil
  then show ?case by simp
next
  case (Cons f fs)
  from Cons.prems(1) obtain v vs' where vs: "vs = v # vs'"
    and o: "outcome_of E V (requests st) f = Succeeded v"
    and rest: "outcomes E V (requests st + 1) fs = map Succeeded vs'"
    by (cases vs) auto
  let ?st1 = "analyze_file E V n f st"
  have r: "requests ?st1 = requests st + 1"
    by (simp add: analyze_file_requests o)
  have m: "own (masterAnalysis ?st1) = AList.update f v (own (masterAnalysis st))"
    using Cons.prems(2) by (simp add: analyze_file_masterAnalysis o assign_plain)
  have "own (masterAnalysis (analyze_loop E V n fs ?st1)) = AList.updates fs vs' (own (masterAnalysis ?st1))"
    using Cons.IH [of ?st1 vs'] rest r Cons.prems(2) by simp
  then show ?case
    by (simp add: vs m)
qed

lemma remdups_snoc:
  "remdups (xs @ [k]) = filter (\<lambda>x. x \<noteq> k) (remdups xs) @ [k]"
  by (induction xs) auto

lemma first_occurrences_Cons:
  "rev (remdups (rev (k # ks))) = k # filter (\<lambda>x. x \<noteq> k) (rev (remdups (rev ks)))"
  by (simp add: remdups_snoc rev_filter)

lemma keys_updates:
  "length ks = length vs \<Longrightarrow>
     map fst (AList.updates ks vs al)
       = map fst al @ filter (\<lambda>k. k \<notin> fst ` set al) (rev (remdups (rev ks)))"
proof (induction ks arbitrary: vs al)
  case Nil
  then show ?case by simp
next
  case (Cons k ks)
  then obtain v vs' where vs: "vs = v # vs'" and len: "length ks = length vs'"
    by (cases vs) auto
  let ?D = "rev (remdups (rev ks))"
  have ih: "map fst (AList.updates ks vs' (AList.update k v al))
              = map fst (AList.update k v al)
                @ filter (\<lambda>x. x \<notin> fst ` set (AList.update k v al)) ?D"
    using Cons.IH [OF len] .
  show ?case
  proof (cases "k \<in> fst ` set al")
    case True
    then have "filter (\<lambda>x. x \<notin> fst ` set al) (filter (\<lambda>x. x \<noteq> k) ?D)
                 = filter (\<lambda>x. x \<notin> fst ` set al) ?D"
      by (simp only: filter_filter) (rule filter_cong [OF refl], auto)
    with True ih show ?thesis
      by (simp add: vs first_occurrences_Cons update_keys dom_update insert_absorb del: rev.simps remdups.simps)
  next
    case False
    have "filter (\<lambda>x. x \<notin> fst ` set al) (filter (\<lambda>x. x \<noteq> k) ?D)
            = filter (\<lambda>x. x \<notin> insert k (fst ` set al)) ?D"
      by (simp only: filter_filter) (rule filter_cong [OF refl], auto)
    with False ih show ?thesis
      by (simp add: vs first_occurrences_Cons update_keys dom_update image_iff del: rev.simps remdups.simps)
  qed
qed

lemma updates_distinct:
  "distinct ks \<Longrightarrow> length ks = length vs \<Longrightarrow> set ks \<inter> fst ` set al = {} \<Longrightarrow>
     AList.updates ks vs al = al @ zip ks vs"
proof (induction ks arbitrary: vs al)
  case Nil
  then show ?case by simp
next
  case (Cons k ks)
  then obtain v vs' where vs: "vs = v # vs'" and len: "length ks = length vs'"
    by (cases vs) auto
  have "AList.update k v al = al @ [(k, v)]"
    using Cons.prems(3) by (intro update_absent) auto
  moreover have "set ks \<inter> fst ` set (al @ [(k, v)]) = {}"
    using Cons.prems by auto
  ultimately show ?case
    using Cons.IH [of vs' "al @ [(k, v)]"] Cons.prems(1) len by (simp add: vs)
qed

lemma outcomes_length [simp]: "length (outcomes E V r fs) = length fs"
  by (induction fs arbitrary: r) simp_all

lemma BatchOutput_loop:
  "BatchOutput E V FILES = own (masterAnalysis (analyze_loop E V (length FILES) FILES (started V FILES [])))"
  by (simp add: BatchOutput_def analyzed_def)

lemma started_simps [simp]:
  "requests (started V FILES printed) = 0"
  "masterAnalysis (started V FILES printed) = empty_object"
  "own empty_object = []"
  by (simp_all add: started_def empty_object_def)

section \<open>What a target leaves in the output\<close>

lemma is_failure_entry: "is_failure out \<Longrightarrow> entry_of out = Some fallback"
  by (cases out) simp_all

lemma loop_entry_skipped:
  assumes "i < length fs" and "entry_of (outcomes E V r fs ! i) = None"
  shows "\<not> existsSync E (fs ! i)"
  using assms
proof (induction fs arbitrary: r i)
  case Nil
  then show ?case by simp
next
  case (Cons f fs)
  show ?case
  proof (cases i)
    case 0
    with Cons.prems show ?thesis
      by (auto simp: outcome_of_def split: if_splits sum.splits option.splits)
  next
    case (Suc j)
    with Cons.prems Cons.IH [of j] show ?thesis by simp
  qed
qed

section \<open>What a run writes\<close>

lemma analyzed_output:
  "own (masterAnalysis (analyzed E V FILES printed)) = BatchOutput E V FILES"
proof -
  have "masterAnalysis (analyze_loop E V (length FILES) FILES (started V FILES printed))
          = masterAnalysis (analyze_loop E V (length FILES) FILES (started V FILES []))"
    using loop_requests_cong [of "started V FILES printed" "started V FILES []"] by simp
  then show ?thesis
    by (simp add: BatchOutput_def analyzed_def)
qed

lemma analyzeAll_writes:
  "\<exists>st. (analyzeAll E V FILES printed = Completed st
          \<or> (\<exists>err. analyzeAll E V FILES printed = Rejected err st))
        \<and> WriteJson OUTPUT_PATH (BatchOutput E V FILES) \<in> set (trace st)
        \<and> sleeps (trace st) = sleeps (trace (analyzed E V FILES printed))"
  by (cases "writeFileSync E OUTPUT_PATH")
     (simp_all add: analyzeAll_def Let_def emit_def analyzed_output)

lemma main_bulk_writes:
  "FILES \<noteq> [] \<Longrightarrow>
     \<exists>st. (main_bulk E FILES = Completed st \<or> (\<exists>err. main_bulk E FILES = Rejected err st))
          \<and> WriteJson OUTPUT_PATH (BatchOutput E bulk FILES) \<in> set (trace st)"
  using analyzeAll_writes [of E bulk FILES "[]"] by (auto simp: main_bulk_def)

lemma main_context_writes:
  "FILES \<noteq> [] \<Longrightarrow>
     \<exists>st. (main_context E FILES = Completed st \<or> (\<exists>err. main_context E FILES = Rejected err st))
          \<and> WriteJson OUTPUT_PATH (BatchOutput E (context_aware (fst (projectContext E))) FILES)
               \<in> set (trace st)"
  using analyzeAll_writes [of E "context_aware (fst (projectContext E))" FILES "snd (projectContext E)"]
  by (auto simp: main_context_def split: prod.splits)

text \<open>
  Two scenarios of the specification. One target: no throttle, one key. Two targets, the
  first answered with a fenced block and the second with an empty completion: the
  parsed value for the first, the fallback for the second.
\<close>

lemma scenario_single_target:
  "sleeps (trace (analyzed (world [(js ''Button.jsx'', component)] [Inr bare_completion]) bulk
                    [js ''Button.jsx''] [])) = 0
   \<and> map fst (BatchOutput (world [(js ''Button.jsx'', component)] [Inr bare_completion]) bulk
                  [js ''Button.jsx'']) = [js ''Button.jsx'']"
  by code_simp

lemma scenario_fenced_then_invalid:
  "BatchOutput (world two_files [Inr fenced_completion, Inr []]) (context_aware placeholder)
     [js ''A.tsx'', js ''B.tsx'']
     = [(js ''A.tsx'', fenced_value), (js ''B.tsx'', fallback)]"
  by code_simp

text \<open>
  The trace only grows: what was printed before the loop is still at the beginning of
  the trace when the run ends.
\<close>

lemma analyze_file_trace: "prefix (trace st) (trace (analyze_file E V n f st))"
  by (simp add: analyze_file_def try_body_def emit_def Let_def
      split: sum.splits option.splits)

lemma loop_trace: "prefix (trace st) (trace (analyze_loop E V n fs st))"
proof (induction fs arbitrary: st)
  case Nil
  show ?case by simp
next
  case (Cons f fs)
  show ?case
    using analyze_file_trace [of st E V n f] Cons [of "analyze_file E V n f st"]
    by (auto intro: prefix_order.order_trans)
qed

lemma analyzeAll_printed:
  "\<exists>st. (analyzeAll E V FILES printed = Completed st
          \<or> (\<exists>err. analyzeAll E V FILES printed = Rejected err st))
        \<and> prefix printed (trace st)
        \<and> WriteJson OUTPUT_PATH (BatchOutput E V FILES) \<in> set (trace st)"
proof -
  have "prefix (trace (started V FILES printed)) (trace (analyzed E V FILES printed))"
    unfolding analyzed_def by (rule loop_trace)
  then have "prefix printed (trace (analyzed E V FILES printed))"
    by (auto simp: started_def prefix_def)
  then show ?thesis
    by (cases "writeFileSync E OUTPUT_PATH")
       (simp_all add: analyzeAll_def Let_def emit_def analyzed_output)
qed

lemma main_context_goes_on:
  assumes "FILES \<noteq> []"
  shows "\<exists>st. (main_context E FILES = Completed st \<or> (\<exists>err. main_context E FILES = Rejected err st))
            \<and> prefix (snd (projectContext E)) (trace st)
            \<and> WriteJson OUTPUT_PATH (BatchOutput E (context_aware (fst (projectContext E))) FILES)
                 \<in> set (trace st)"
  using analyzeAll_printed [of E "context_aware (fst (projectContext E))" FILES "snd (projectContext E)"] assms
  by (auto simp: main_context_def split: prod.splits)

text \<open>The errors that the block gathering the context can throw, and what it catches.\<close>

lemma manifest_failure:
  assumes "existsSync E (js ''package.json'')"
    and "readFileSync E (js ''package.json'') = Inl err
         \<or> (readFileSync E (js ''package.json'') = Inr src
             \<and> (JSON_parse src = None
                 \<or> (JSON_parse src = Some pkg \<and> manifest_context E pkg = None)))"
  shows "projectContext E = (placeholder, [ConsoleWarn context_warning])"
  using assms
  by (auto simp: projectContext_def context_try_def manifest_step_def)

lemma readme_failure:
  assumes "manifest_step E = Inr ctx" and "existsSync E (js ''README.md'')"
    and "readFileSync E (js ''README.md'') = Inl err"
  shows "projectContext E = (ctx, [ConsoleWarn context_warning])"
  using assms by (simp add: projectContext_def context_try_def)

text \<open>What a target that was answered leaves in the accumulator.\<close>

lemma assigned_entry:
  assumes "existsSync E f" and "readFileSync E f = Inr code"
    and "generateContent E (requests st) (compose V f code) = Inr raw"
  shows "masterAnalysis (analyze_file E V n f st)
         = assign f (case JSON_parse (trim (strip_fences raw)) of Some v \<Rightarrow> v | None \<Rightarrow> fallback)
             (masterAnalysis st)"
  using assms
  by (simp add: analyze_file_def try_body_def emit_def Let_def split: option.splits)

section \<open>The claims\<close>

text \<open>
  C1. When every target of the list is read, answered and parsed (with the values \<open>vs\<close>),
  and no identifier is an array index or \<^verbatim>\<open>__proto__\<close>, \<open>BatchOutput\<close> has one entry for
  each identifier of the list, the keys in the order of their first occurrence in the
  list; the value of an identifier is the one parsed from the completion of its last
  occurrence; so for pairwise distinct identifiers \<open>BatchOutput\<close> is the list of the
  identifiers with their parsed values, in input order.
\<close>

theorem batch_output_when_all_succeed:
  assumes "outcomes E V 0 FILES = map Succeeded vs"
    and "\<forall>f\<in>set FILES. plain_key f"
  shows "map fst (BatchOutput E V FILES) = rev (remdups (rev FILES))
       \<and> (\<forall>i<length FILES. FILES ! i \<notin> set (drop (Suc i) FILES) \<longrightarrow>
             map_of (BatchOutput E V FILES) (FILES ! i) = Some (vs ! i))
       \<and> (distinct FILES \<longrightarrow> BatchOutput E V FILES = zip FILES vs)"
proof -
  have len: "length FILES = length vs"
    using arg_cong [OF assms(1), of length] by simp
  have out: "BatchOutput E V FILES = AList.updates FILES vs []"
    using loop_all_succeed [of E V "started V FILES []" FILES vs "length FILES"] assms
    by (simp add: BatchOutput_loop)
  have keys: "map fst (BatchOutput E V FILES) = rev (remdups (rev FILES))"
    by (simp add: out keys_updates [OF len])
  have vals: "map_of (BatchOutput E V FILES) (FILES ! i) = Some (vs ! i)"
    if "i < length FILES" and "FILES ! i \<notin> set (drop (Suc i) FILES)" for i
  proof -
    have "FILES ! i \<noteq> proto_key"
      using assms(2) that(1) by (auto simp: plain_key_def)
    moreover have "entry_of (outcomes E V (requests (started V FILES [])) FILES ! i) = Some (vs ! i)"
      using that(1) len by (simp add: assms(1))
    ultimately show ?thesis
      using that loop_entry [of i FILES E V "started V FILES []" "vs ! i" "length FILES"]
      by (simp add: BatchOutput_loop)
  qed
  have "BatchOutput E V FILES = zip FILES vs" if "distinct FILES"
    using that len by (simp add: out updates_distinct)
  with keys vals show ?thesis by blast
qed

theorem batch_output_when_all_succeed_witness:
  "outcomes (world two_files [Inr fenced_completion, Inr bare_completion]) bulk 0 [js ''A.tsx'', js ''B.tsx'']
     = map Succeeded [fenced_value, bare_value]
   \<and> plain_key (js ''A.tsx'') \<and> plain_key (js ''B.tsx'')
   \<and> BatchOutput (world two_files [Inr fenced_completion, Inr bare_completion]) bulk [js ''A.tsx'', js ''B.tsx'']
     = [(js ''A.tsx'', fenced_value), (js ''B.tsx'', bare_value)]"
proof -
  let ?W = "world two_files [Inr fenced_completion, Inr bare_completion]"
  let ?F = "[js ''A.tsx'', js ''B.tsx'']"
  have o: "outcomes ?W bulk 0 ?F = map Succeeded [fenced_value, bare_value]"
    by code_simp
  have p: "plain_key (js ''A.tsx'')" "plain_key (js ''B.tsx'')"
    by code_simp+
  then have "\<forall>f\<in>set ?F. plain_key f" by simp
  from batch_output_when_all_succeed [OF o this]
  have "distinct ?F \<longrightarrow> BatchOutput ?W bulk ?F = zip ?F [fenced_value, bare_value]"
    by blast
  moreover have "distinct ?F" by (simp add: js_def)
  ultimately have "BatchOutput ?W bulk ?F = [(js ''A.tsx'', fenced_value), (js ''B.tsx'', bare_value)]"
    by simp
  with o p show ?thesis by blast
qed

text \<open>
  Without the condition on the identifiers the order is not the input order: for the
  files \<^verbatim>\<open>2\<close> and \<^verbatim>\<open>1\<close>, given in this order, the entry of \<^verbatim>\<open>1\<close> comes first.
\<close>

theorem input_order_counterexample:
  "outcomes (world numbered_files [Inr fenced_completion, Inr bare_completion]) bulk 0 [js ''2'', js ''1'']
     = map Succeeded [fenced_value, bare_value]
   \<and> BatchOutput (world numbered_files [Inr fenced_completion, Inr bare_completion]) bulk [js ''2'', js ''1'']
     = [(js ''1'', bare_value), (js ''2'', fenced_value)]"
  by code_simp

text \<open>
  C2. The entry of a target in \<open>BatchOutput\<close> is decided by the outcome of this target
  alone, whatever happened to the targets before and after it: for a target that failed
  (unreadable file, rejected request or malformed completion) it is the fallback, for
  every other target what its own outcome gives. This holds for the last occurrence of
  an identifier in the list, and for identifiers other than \<^verbatim>\<open>__proto__\<close>.
\<close>

theorem entry_decided_by_own_outcome:
  assumes "i < length FILES"
    and "FILES ! i \<noteq> proto_key"
    and "FILES ! i \<notin> set (drop (Suc i) FILES)"
  shows "(is_failure (outcomes E V 0 FILES ! i) \<longrightarrow>
            map_of (BatchOutput E V FILES) (FILES ! i) = Some fallback)
       \<and> map_of (BatchOutput E V FILES) (FILES ! i) = entry_of (outcomes E V 0 FILES ! i)"
proof -
  have eq: "map_of (BatchOutput E V FILES) (FILES ! i) = entry_of (outcomes E V 0 FILES ! i)"
  proof (cases "entry_of (outcomes E V 0 FILES ! i)")
    case None
    then have "\<not> existsSync E (FILES ! i)"
      using assms(1) loop_entry_skipped by blast
    then have "FILES ! i \<notin> fst ` set (BatchOutput E V FILES)"
      using loop_keys_exist [of E V "length FILES" FILES "started V FILES []"]
      by (auto simp: BatchOutput_loop)
    then show ?thesis
      by (simp add: None map_of_eq_None_iff)
  next
    case (Some v)
    then show ?thesis
      using assms loop_entry [of i FILES E V "started V FILES []" v "length FILES"]
      by (simp add: BatchOutput_loop)
  qed
  then show ?thesis
    by (simp add: is_failure_entry)
qed

theorem entry_decided_by_own_outcome_witness:
  "is_failure (outcomes (world two_files [Inr fenced_completion, Inr js_tagged_completion]) bulk 0
                 [js ''A.tsx'', js ''B.tsx''] ! 1)
   \<and> map_of (BatchOutput (world two_files [Inr fenced_completion, Inr js_tagged_completion]) bulk
               [js ''A.tsx'', js ''B.tsx'']) (js ''B.tsx'') = Some fallback"
proof -
  let ?W = "world two_files [Inr fenced_completion, Inr js_tagged_completion]"
  let ?F = "[js ''A.tsx'', js ''B.tsx'']"
  have f: "is_failure (outcomes ?W bulk 0 ?F ! 1)"
    by code_simp
  have "?F ! 1 \<noteq> proto_key" "?F ! 1 \<notin> set (drop (Suc 1) ?F)" "1 < length ?F"
    by (simp_all add: js_def proto_key_def)
  from entry_decided_by_own_outcome [OF this(3) this(1) this(2), of ?W bulk] f
  show ?thesis by simp
qed

text \<open>
  When the identifier of a failed target occurs again later, the later target overwrites
  the fallback: the same file twice, the first request rejected, the second answered.
\<close>

theorem fallback_overwritten_counterexample:
  "is_failure (outcomes (world two_files [Inl (Error (js ''429'')), Inr bare_completion]) bulk 0
                 [js ''A.tsx'', js ''A.tsx''] ! 0)
   \<and> map_of (BatchOutput (world two_files [Inl (Error (js ''429'')), Inr bare_completion]) bulk
               [js ''A.tsx'', js ''A.tsx'']) (js ''A.tsx'') = Some bare_value
   \<and> bare_value \<noteq> fallback"
  by code_simp

text \<open>
  The assignment under the key \<^verbatim>\<open>__proto__\<close> replaces the prototype of the accumulator
  and creates no entry: a file of this name that fails leaves no fallback behind.
\<close>

lemma proto_key_dropped:
  "BatchOutput (world [(js ''__proto__'', component)] [Inl (Error (js ''429''))]) bulk [js ''__proto__''] = []"
  by code_simp

text \<open>
  C3. The throttle is called once after every target that succeeded, the last one
  included, when the list has more than one identifier (skipped ones counted), and
  never otherwise; a skipped or failed target calls none.
\<close>

theorem throttle_count:
  "sleeps (trace (analyzed E V FILES printed)) =
     sleeps printed
       + (if 1 < length FILES then length (filter is_success (outcomes E V 0 FILES)) else 0)"
  by (simp add: analyzed_def loop_sleeps) (simp add: started_def)

theorem throttle_count_witness:
  "sleeps (trace (analyzed (world two_files [Inr js_tagged_completion, Inr bare_completion]) bulk
                    [js ''A.tsx'', js ''missing.tsx'', js ''B.tsx''] [])) = 1"
proof -
  let ?W = "world two_files [Inr js_tagged_completion, Inr bare_completion]"
  let ?F = "[js ''A.tsx'', js ''missing.tsx'', js ''B.tsx'']"
  have "length (filter is_success (outcomes ?W bulk 0 ?F)) = 1"
    by code_simp
  then show ?thesis
    using throttle_count [of ?W bulk ?F "[]"] by simp
qed

text \<open>
  For two targets that both succeed the throttle is called twice, not once: it is also
  called after the last target.
\<close>

theorem throttle_after_last_counterexample:
  "length (filter (existsSync (world two_files [Inr fenced_completion, Inr bare_completion]))
             [js ''A.tsx'', js ''B.tsx'']) = 2
   \<and> sleeps (trace (analyzed (world two_files [Inr fenced_completion, Inr bare_completion]) bulk
                       [js ''A.tsx'', js ''B.tsx''] [])) = 2"
  by code_simp

text \<open>
  C4. Processing targets changes no entry of an identifier that is not among them, and
  the keys that were there keep their order. An entry is overwritten only by a later
  target with the same identifier.
\<close>

theorem other_entries_untouched:
  assumes "k \<notin> set fs"
  shows "map_of (own (masterAnalysis (analyze_loop E V n fs st))) k = map_of (own (masterAnalysis st)) k
       \<and> filter (\<lambda>x. x \<in> fst ` set (own (masterAnalysis st)))
                 (map fst (own (masterAnalysis (analyze_loop E V n fs st))))
           = map fst (own (masterAnalysis st))"
  using assms by (simp add: loop_untouched loop_keys_order)

theorem other_entries_untouched_witness:
  "own (masterAnalysis after_first) = [(js ''A.tsx'', fenced_value)]
   \<and> map_of (own (masterAnalysis (analyze_loop (world two_files [Inr fenced_completion, Inr bare_completion, Inr bare_completion])
                bulk 3 [js ''B.tsx''] after_first))) (js ''A.tsx'') = Some fenced_value"
proof -
  have a: "own (masterAnalysis after_first) = [(js ''A.tsx'', fenced_value)]"
    by code_simp
  have "js ''A.tsx'' \<notin> set [js ''B.tsx'']"
    by (simp add: js_def)
  from other_entries_untouched [OF this, of "world two_files [Inr fenced_completion, Inr bare_completion, Inr bare_completion]" bulk 3 after_first]
  show ?thesis
    using a by simp
qed

text \<open>
  An identifier that occurs twice is overwritten: the entry written for the first
  \<^verbatim>\<open>A.tsx\<close> is replaced by the value parsed for the second.
\<close>

theorem entry_overwritten_counterexample:
  "map_of (own (masterAnalysis after_first)) (js ''A.tsx'') = Some fenced_value
   \<and> map_of (own (masterAnalysis (analyze_loop (world two_files [Inr fenced_completion, Inr bare_completion, Inr bare_completion])
                bulk 3 [js ''B.tsx'', js ''A.tsx''] after_first))) (js ''A.tsx'') = Some bare_value
   \<and> fenced_value \<noteq> bare_value"
  by code_simp

text \<open>
  C5. An identifier that does not exist has no entry in \<open>BatchOutput\<close>; the output is
  the one of the list without it; and its iteration changes nothing but the log, where
  it adds at most the line about the skipped file: no request, no sleep, no entry.
\<close>

theorem missing_identifier_skipped:
  assumes "\<not> existsSync E f"
  shows "f \<notin> fst ` set (BatchOutput E V FILES)
       \<and> BatchOutput E V (pre @ f # post) = BatchOutput E V (pre @ post)
       \<and> analyze_file E V n f st =
           st\<lparr>trace := trace st @ (case skip_line V f of None \<Rightarrow> [] | Some line \<Rightarrow> [ConsoleLog line])\<rparr>"
proof -
  have absent: "f \<notin> fst ` set (BatchOutput E V FILES)"
    using assms loop_keys_exist [of E V "length FILES" FILES "started V FILES []"]
    by (auto simp: BatchOutput_loop)
  let ?n1 = "length (pre @ f # post)" and ?n2 = "length (pre @ post)"
  let ?s1 = "analyze_loop E V ?n1 pre (started V (pre @ f # post) [])"
  let ?s2 = "analyze_loop E V ?n2 pre (started V (pre @ post) [])"
  have pre: "masterAnalysis ?s1 = masterAnalysis ?s2 \<and> requests ?s1 = requests ?s2"
    by (rule loop_requests_cong) simp_all
  have skip: "masterAnalysis (analyze_file E V ?n1 f ?s1) = masterAnalysis ?s2"
    "requests (analyze_file E V ?n1 f ?s1) = requests ?s2"
    using assms pre by (simp_all add: analyze_file_skip)
  have "masterAnalysis (analyze_loop E V ?n1 post (analyze_file E V ?n1 f ?s1))
          = masterAnalysis (analyze_loop E V ?n2 post ?s2)"
    using loop_requests_cong [OF skip] by blast
  then have same: "BatchOutput E V (pre @ f # post) = BatchOutput E V (pre @ post)"
    by (simp only: BatchOutput_loop loop_append analyze_loop.simps)
  show ?thesis
    using absent same assms by (simp add: analyze_file_skip)
qed

theorem missing_identifier_skipped_witness:
  "\<not> existsSync (world two_files [Inr fenced_completion, Inr bare_completion]) (js ''gone.tsx'')
   \<and> BatchOutput (world two_files [Inr fenced_completion, Inr bare_completion]) bulk
        [js ''A.tsx'', js ''gone.tsx'', js ''B.tsx'']
      = [(js ''A.tsx'', fenced_value), (js ''B.tsx'', bare_value)]"
proof -
  let ?W = "world two_files [Inr fenced_completion, Inr bare_completion]"
  have m: "\<not> existsSync ?W (js ''gone.tsx'')"
    by code_simp
  have "BatchOutput ?W bulk ([js ''A.tsx''] @ js ''gone.tsx'' # [js ''B.tsx''])
          = BatchOutput ?W bulk ([js ''A.tsx''] @ [js ''B.tsx''])"
    using missing_identifier_skipped [OF m] by blast
  moreover have "BatchOutput ?W bulk [js ''A.tsx'', js ''B.tsx'']
                   = [(js ''A.tsx'', fenced_value), (js ''B.tsx'', bare_value)]"
    by code_simp
  ultimately show ?thesis
    using m by simp
qed

text \<open>
  C6. A target whose file is read and whose request is answered gets, as its entry, the
  value that \<^verbatim>\<open>JSON.parse\<close> returns for the completion stripped of the markers and trimmed,
  and the fallback when \<^verbatim>\<open>JSON.parse\<close> throws. Stripping only deletes code units of the
  completion, and the stripped completion never contains three backticks in a row. If the inner text holds no three backticks in a row, a
  completion that wraps it in a fence with the tag \<^verbatim>\<open>json\<close>, or in a fence with no tag, is
  normalized to the trimmed inner text; so the text of a well-formed value, wrapped in
  either way, is parsed to this value. Of a fence with another tag (one that holds no
  backtick and does not begin with \<^verbatim>\<open>json\<close>) only the backticks go: the tag stays in front
  of the inner text.
\<close>

theorem normalizing_a_json_fence:
  "(existsSync E f \<and> readFileSync E f = Inr code
      \<and> generateContent E (requests st) (compose V f code) = Inr raw
     \<longrightarrow> masterAnalysis (analyze_file E V n f st)
           = assign f (case JSON_parse (trim (strip_fences raw)) of Some v \<Rightarrow> v | None \<Rightarrow> fallback)
               (masterAnalysis st))
   \<and> subseq (strip_fences raw) raw
   \<and> \<not> sublist fence (strip_fences raw)
   \<and> (\<not> sublist fence inner
       \<longrightarrow> trim (strip_fences (fence_json @ nl @ inner @ nl @ fence)) = trim inner
         \<and> trim (strip_fences (fence @ nl @ inner @ nl @ fence)) = trim inner)
   \<and> (well_formed v \<and> \<not> sublist fence (render v)
       \<longrightarrow> JSON_parse (trim (strip_fences (fence_json @ nl @ render v @ nl @ fence))) = Some v
         \<and> JSON_parse (trim (strip_fences (fence @ nl @ render v @ nl @ fence))) = Some v)
   \<and> (0x60 \<notin> set tag \<and> \<not> prefix (js ''json'') tag \<and> \<not> sublist fence inner'
       \<longrightarrow> strip_fences (fence @ tag @ nl @ inner' @ nl @ fence) = tag @ nl @ inner' @ nl)"
proof -
  have "JSON_parse (trim (strip_fences (fence_json @ nl @ render v @ nl @ fence))) = Some v
        \<and> JSON_parse (trim (strip_fences (fence @ nl @ render v @ nl @ fence))) = Some v"
    if "well_formed v" and "\<not> sublist fence (render v)"
    using that by (simp add: fence_json_fenced fence_fenced trim_render JSON_parse_render)
  then show ?thesis
    using assigned_entry [of E f code st V raw n] tagged_fence_stripped [of tag inner']
    by (simp add: fence_json_fenced fence_fenced strip_fences_clean strip_fences_subseq)
qed

theorem normalizing_a_json_fence_witness:
  "existsSync (world two_files [Inr fenced_completion]) (js ''A.tsx'')
   \<and> readFileSync (world two_files [Inr fenced_completion]) (js ''A.tsx'') = Inr component
   \<and> generateContent (world two_files [Inr fenced_completion]) 0 (bulk_prompt component)
        = Inr (fence_json @ nl @ render fenced_value @ nl @ fence)
   \<and> well_formed fenced_value
   \<and> render fenced_value = inner_json
   \<and> \<not> sublist fence inner_json
   \<and> trim (strip_fences (fence_json @ nl @ inner_json @ nl @ fence)) = inner_json
   \<and> masterAnalysis (analyze_file (world two_files [Inr fenced_completion]) bulk 1 (js ''A.tsx'')
                       (started bulk [js ''A.tsx''] []))
       = assign (js ''A.tsx'') fenced_value empty_object
   \<and> 0x60 \<notin> set (js ''js'') \<and> \<not> prefix (js ''json'') (js ''js'')
   \<and> strip_fences (fence @ js ''js'' @ nl @ inner_json @ nl @ fence) = js ''js'' @ nl @ inner_json @ nl"
proof -
  let ?W = "world two_files [Inr fenced_completion]"
  let ?raw = "fence_json @ nl @ render fenced_value @ nl @ fence"
  have e: "existsSync ?W (js ''A.tsx'')"
    and r: "readFileSync ?W (js ''A.tsx'') = Inr component"
    by code_simp+
  have g: "generateContent ?W (requests (started bulk [js ''A.tsx''] []))
             (compose bulk (js ''A.tsx'') component) = Inr ?raw"
    by code_simp
  have w: "well_formed fenced_value"
    by code_simp
  have i: "render fenced_value = inner_json"
    by code_simp
  have c: "\<not> sublist fence (render fenced_value)"
    by code_simp
  have t: "0x60 \<notin> set (js ''js'')" "\<not> prefix (js ''json'') (js ''js'')"
    by code_simp+
  have tr: "trim inner_json = inner_json"
    by code_simp
  have m: "masterAnalysis (started bulk [js ''A.tsx''] []) = empty_object"
    by (simp add: started_def)
  note T = normalizing_a_json_fence [of ?W "js ''A.tsx''" component "started bulk [js ''A.tsx''] []"
              bulk ?raw 1 "render fenced_value" fenced_value "js ''js''" "render fenced_value"]
  from T e r g have 1: "masterAnalysis (analyze_file ?W bulk 1 (js ''A.tsx'') (started bulk [js ''A.tsx''] []))
      = assign (js ''A.tsx'') (case JSON_parse (trim (strip_fences ?raw)) of Some v \<Rightarrow> v | None \<Rightarrow> fallback)
          (masterAnalysis (started bulk [js ''A.tsx''] []))"
    by blast
  from T c have 2: "trim (strip_fences ?raw) = trim (render fenced_value)"
    by blast
  from T w c have 3: "JSON_parse (trim (strip_fences ?raw)) = Some fenced_value"
    by blast
  from T t c have 4: "strip_fences (fence @ js ''js'' @ nl @ render fenced_value @ nl @ fence)
                      = js ''js'' @ nl @ render fenced_value @ nl"
    by blast
  have g': "generateContent ?W 0 (bulk_prompt component) = Inr ?raw"
    using g by (simp add: started_def bulk_def)
  show ?thesis
    using e r g' w c t 1 2 3 4 by (simp add: i tr m)
qed

text \<open>
  A fence with another tag is not removed whole: of \<^verbatim>\<open>```js\<close> the letters \<^verbatim>\<open>js\<close> stay,
  and the completion is not parsed although its inner text is valid JSON.
\<close>

theorem other_language_tag_counterexample:
  "js_tagged_completion = js ''```js'' @ nl @ js ''{}'' @ nl @ js ''```''
   \<and> JSON_parse (js ''{}'') = Some (JObj [])
   \<and> JSON_parse (trim (strip_fences js_tagged_completion)) = None"
  by code_simp

text \<open>
  C7. With an empty list both programs print the diagnostic and exit with code 1, and
  this is all they do: no request is sent and no file is written.
\<close>

theorem empty_input_exits:
  "main_bulk E [] = Exited 1 [ConsoleError no_files_message]
   \<and> main_context E [] = Exited 1 [ConsoleError no_files_message]"
  by (simp add: main_bulk_def main_context_def)

text \<open>
  C8. With neither \<^verbatim>\<open>package.json\<close> nor \<^verbatim>\<open>README.md\<close> the context is the placeholder.
  A \<^verbatim>\<open>README.md\<close> that is read adds its first 3000 code units to the context, always
  followed by the dots, whether or not anything was cut. When \<^verbatim>\<open>package.json\<close> exists
  but reading it throws, or its text is not JSON, or building the context from its value
  throws, the warning is printed and the context is the placeholder. When \<^verbatim>\<open>README.md\<close>
  exists but reading it throws, the warning is printed and the context is what the first
  step had made of it. In every case, for a list that is not empty, the run goes on: it
  ends after writing the output of the loop run with this context, and its trace begins
  with what the block printed.
\<close>

theorem context_building:
  "(\<not> existsSync E (js ''package.json'') \<and> \<not> existsSync E (js ''README.md'')
       \<longrightarrow> projectContext E = (placeholder, []))
   \<and> (manifest_step E = Inr ctx \<and> existsSync E (js ''README.md'')
        \<and> readFileSync E (js ''README.md'') = Inr readme
       \<longrightarrow> projectContext E = (ctx @ readme_heading @ take 3000 readme @ js ''...'', []))
   \<and> (existsSync E (js ''package.json'')
        \<and> (readFileSync E (js ''package.json'') = Inl err
            \<or> (readFileSync E (js ''package.json'') = Inr src
                \<and> (JSON_parse src = None
                    \<or> (JSON_parse src = Some pkg \<and> manifest_context E pkg = None))))
       \<longrightarrow> projectContext E = (placeholder, [ConsoleWarn context_warning]))
   \<and> (manifest_step E = Inr ctx' \<and> existsSync E (js ''README.md'')
        \<and> readFileSync E (js ''README.md'') = Inl err'
       \<longrightarrow> projectContext E = (ctx', [ConsoleWarn context_warning]))
   \<and> (FILES \<noteq> []
       \<longrightarrow> (\<exists>st. (main_context E FILES = Completed st
                   \<or> (\<exists>e. main_context E FILES = Rejected e st))
                 \<and> prefix (snd (projectContext E)) (trace st)
                 \<and> WriteJson OUTPUT_PATH (BatchOutput E (context_aware (fst (projectContext E))) FILES)
                      \<in> set (trace st)))"
proof -
  have 1: "\<not> existsSync E (js ''package.json'') \<and> \<not> existsSync E (js ''README.md'')
       \<longrightarrow> projectContext E = (placeholder, [])"
    by (simp add: projectContext_def context_try_def manifest_step_def)
  have 2: "manifest_step E = Inr ctx \<and> existsSync E (js ''README.md'')
        \<and> readFileSync E (js ''README.md'') = Inr readme
       \<longrightarrow> projectContext E = (ctx @ readme_heading @ take 3000 readme @ js ''...'', [])"
    by (simp add: projectContext_def context_try_def readme_heading_def)
  show ?thesis
    using 1 2 manifest_failure [of E err src pkg] readme_failure [of E ctx' err']
      main_context_goes_on [of FILES E]
    by blast
qed

theorem context_building_witness:
  "manifest_step readme_only = Inr placeholder
   \<and> projectContext readme_only = (placeholder @ readme_heading @ js ''Hi'' @ js ''...'', [])
   \<and> \<not> existsSync (world [] []) (js ''package.json'') \<and> \<not> existsSync (world [] []) (js ''README.md'')
   \<and> projectContext (world [] []) = (placeholder, [])
   \<and> existsSync broken_manifest (js ''package.json'')
   \<and> readFileSync broken_manifest (js ''package.json'') = Inr (js ''{'')
   \<and> JSON_parse (js ''{'') = None
   \<and> existsSync broken_manifest (js ''README.md'')
   \<and> projectContext broken_manifest = (placeholder, [ConsoleWarn context_warning])
   \<and> manifest_step unreadable_readme = Inr placeholder
   \<and> existsSync unreadable_readme (js ''README.md'')
   \<and> readFileSync unreadable_readme (js ''README.md'') = Inl (Error (js ''EISDIR''))
   \<and> projectContext unreadable_readme = (placeholder, [ConsoleWarn context_warning])
   \<and> (\<exists>st. (main_context broken_manifest [js ''A.tsx''] = Completed st
             \<or> (\<exists>e. main_context broken_manifest [js ''A.tsx''] = Rejected e st))
           \<and> prefix [ConsoleWarn context_warning] (trace st)
           \<and> WriteJson OUTPUT_PATH (BatchOutput broken_manifest (context_aware placeholder) [js ''A.tsx''])
                \<in> set (trace st))"
proof -
  have m: "manifest_step readme_only = Inr placeholder"
    by code_simp
  have e: "existsSync readme_only (js ''README.md'')"
    and r: "readFileSync readme_only (js ''README.md'') = Inr (js ''Hi'')"
    by code_simp+
  from context_building [of readme_only placeholder "js ''Hi''"] m e r
  have 2: "projectContext readme_only = (placeholder @ readme_heading @ take 3000 (js ''Hi'') @ js ''...'', [])"
    by blast
  have n: "\<not> existsSync (world [] []) (js ''package.json'')" "\<not> existsSync (world [] []) (js ''README.md'')"
    by code_simp+
  from context_building [of "world [] []"] n
  have 1: "projectContext (world [] []) = (placeholder, [])"
    by blast
  have b: "existsSync broken_manifest (js ''package.json'')"
    "readFileSync broken_manifest (js ''package.json'') = Inr (js ''{'')"
    "JSON_parse (js ''{'') = None"
    "existsSync broken_manifest (js ''README.md'')"
    by code_simp+
  note B = context_building [where E = broken_manifest and src = "js ''{''" and FILES = "[js ''A.tsx'']"]
  from B b have 3: "projectContext broken_manifest = (placeholder, [ConsoleWarn context_warning])"
    by blast
  have "[js ''A.tsx''] \<noteq> []"
    by simp
  with B have "\<exists>st. (main_context broken_manifest [js ''A.tsx''] = Completed st
             \<or> (\<exists>e. main_context broken_manifest [js ''A.tsx''] = Rejected e st))
           \<and> prefix (snd (projectContext broken_manifest)) (trace st)
           \<and> WriteJson OUTPUT_PATH
                (BatchOutput broken_manifest (context_aware (fst (projectContext broken_manifest))) [js ''A.tsx''])
                \<in> set (trace st)"
    by blast
  then have 5: "\<exists>st. (main_context broken_manifest [js ''A.tsx''] = Completed st
             \<or> (\<exists>e. main_context broken_manifest [js ''A.tsx''] = Rejected e st))
           \<and> prefix [ConsoleWarn context_warning] (trace st)
           \<and> WriteJson OUTPUT_PATH (BatchOutput broken_manifest (context_aware placeholder) [js ''A.tsx''])
                \<in> set (trace st)"
    by (simp add: 3)
  have u: "manifest_step unreadable_readme = Inr placeholder"
    "existsSync unreadable_readme (js ''README.md'')"
    "readFileSync unreadable_readme (js ''README.md'') = Inl (Error (js ''EISDIR''))"
    by code_simp+
  from context_building [where E = unreadable_readme and ctx' = placeholder and err' = "Error (js ''EISDIR'')"] u
  have 4: "projectContext unreadable_readme = (placeholder, [ConsoleWarn context_warning])"
    by blast
  have h: "take 3000 (js ''Hi'') = js ''Hi''"
    by (simp add: js_def)
  show ?thesis
    using m 2 n 1 b 3 u 4 5 unfolding h by blast
qed

text \<open>A \<^verbatim>\<open>README.md\<close> of two characters is marked with the dots too.\<close>

theorem short_readme_marked_counterexample:
  "length (js ''Hi'') \<le> 3000
   \<and> fst (projectContext readme_only)
       = js ''Unknown React Application'' @ nl @ nl @ js ''README Summary:'' @ nl @ js ''Hi...''"
  by code_simp

text \<open>
  C9. Stripping the fence markers from a completion that contains no fence marker (no
  three backticks in a row, hence neither marker) gives the same text back.
\<close>

theorem strip_fences_fence_free:
  assumes "\<not> sublist fence raw"
  shows "strip_fences raw = raw"
proof -
  have "\<not> sublist fence_json raw"
    using assms fence_sublist_fence_json sublist_order.order_trans by blast
  then show ?thesis
    using assms by (simp add: strip_fences_def replace_all_no_match)
qed

theorem strip_fences_fence_free_witness:
  "\<not> sublist fence (js ''{\"props\":{}}'') \<and> strip_fences (js ''{\"props\":{}}'') = js ''{\"props\":{}}''"
proof -
  have h: "\<not> sublist fence (js ''{\"props\":{}}'')"
    by (simp add: fence_def js_def sublist_Cons_right)
  show ?thesis
    using h strip_fences_fence_free [OF h] by simp
qed



end
